theory Spec2Isabelle
  imports Main "HOL-Library.Word"
begin

unbundle bit_operations_syntax

section \<open>Words and bytes of an OS/8 image\<close>

text \<open>
  An image file is a sequence of bytes; the package reads it as 16-bit containers
  (Go \<open>uint16\<close>) that hold 12-bit PDP-8 words, low byte first.
\<close>

type_synonym byte = "8 word"
type_synonym uint16 = "16 word"

text \<open>
  \<open>nativeOrder\<close> is computed once, at start-up, by reading the two bytes \<open>1, 2\<close> through a
  \<open>uint16\<close> pointer. Where it is true the codec aliases the byte buffer as a word slice,
  so the first byte of each pair is the low byte of the word. \<open>alias_words\<close> and
  \<open>alias_bytes\<close> are that reinterpretation of memory on such a host;
  the slice header gets half (twice) the length, so a trailing odd byte is not seen.
\<close>

fun alias_words :: "byte list \<Rightarrow> uint16 list" where
  "alias_words (lo # hi # rest) = word_cat hi lo # alias_words rest"
| "alias_words _ = []"

fun alias_bytes :: "uint16 list \<Rightarrow> byte list" where
  "alias_bytes [] = []"
| "alias_bytes (w # ws) = ucast w # ucast (drop_bit 8 w) # alias_bytes ws"

definition nativeOrder :: bool where
  "nativeOrder = (alias_words [1, 2] ! 0 = 0x201)"

text \<open>
  \<open>raw2words\<close> and \<open>words2raw\<close>, with the value of \<open>nativeOrder\<close> as first argument. The
  \<open>else\<close> branches are the source's loops over \<open>i\<close>.
\<close>

definition raw2words :: "bool \<Rightarrow> byte list \<Rightarrow> uint16 list" where
  "raw2words native raw =
     (if native then alias_words raw
      else map (\<lambda>i. ucast (raw ! (i * 2)) OR push_bit 8 (ucast (raw ! (i * 2 + 1))))
             [0 ..< length raw div 2])"

definition words2raw :: "bool \<Rightarrow> uint16 list \<Rightarrow> byte list" where
  "words2raw native ws =
     (if native then alias_bytes ws
      else concat (map (\<lambda>w. [ucast w, ucast (drop_bit 8 w)]) ws))"

section \<open>Six-bit characters and entry names\<close>

text \<open>\<open>ASCII6\<close> returns the two characters packed in a word, as a pair for \<open>[2]byte\<close>.\<close>

definition ASCII6 :: "uint16 \<Rightarrow> byte \<times> byte" where
  "ASCII6 w =
     (let a0 = (ucast (drop_bit 6 w AND 0x3f) :: byte);
          a0 = (if a0 < 32 then a0 + 64 else a0);
          a1 = (ucast (w AND 0x3f) :: byte);
          a1 = (if a1 < 32 then a1 + 64 else a1)
      in (a0, a1))"

text \<open>
  A \<open>fileEntry\<close> is the six words of a directory entry: the name array of four words,
  the date and the negated length.
\<close>

record fileEntry =
  fe_name :: "uint16 list"
  fe_date :: uint16
  fe_len :: uint16

definition byte_char :: "byte \<Rightarrow> char" where
  "byte_char b = char_of (unat b)"

text \<open>
  The loop of \<open>fileEntry.Name\<close> over the first three name words: \<open>res\<close> is the
  nine-byte buffer, \<open>i\<close> the fill index; either \<open>break\<close> ends the loop.
\<close>

fun name_loop :: "uint16 list \<Rightarrow> byte list \<Rightarrow> nat \<Rightarrow> byte list \<times> nat" where
  "name_loop [] res i = (res, i)"
| "name_loop (w # ws) res i =
     (let a = ASCII6 w in
      if fst a = 0x40 then (res, i)
      else let res = res[i := fst a]; i = i + 1 in
        if snd a = 0x40 then (res, i)
        else name_loop ws (res[i := snd a]) (i + 1))"

definition Name :: "fileEntry \<Rightarrow> string" where
  "Name f =
     (let (res, i) = name_loop (take 3 (fe_name f)) [0, 0, 0, 0, 0, 0, 0, 0, 0] 0;
          a = ASCII6 (fe_name f ! 3);
          (res, i) =
            (if fst a \<noteq> 0x40 then
               let res = res[i := 0x2e]; i = i + 1;
                   res = res[i := fst a]; i = i + 1
               in if snd a \<noteq> 0x40 then (res[i := snd a], i + 1) else (res, i)
             else (res, i))
      in map byte_char (take i res))"

definition Len :: "fileEntry \<Rightarrow> int" where
  "Len f = 4096 - uint (fe_len f)"

text \<open>
  The decoding of a name field as the specification words it: the characters of the
  first three words up to the first \<open>@\<close>, then, when the first character of the fourth word
  is not \<open>@\<close>, a dot and at most two extension characters, stopping at \<open>@\<close>.
\<close>

definition name_decoding :: "uint16 \<Rightarrow> uint16 \<Rightarrow> uint16 \<Rightarrow> uint16 \<Rightarrow> string" where
  "name_decoding w0 w1 w2 w3 =
     (let pairs = concat (map (\<lambda>w. [fst (ASCII6 w), snd (ASCII6 w)]) [w0, w1, w2]);
          base = takeWhile (\<lambda>c. c \<noteq> 0x40) pairs;
          e = ASCII6 w3;
          ext = (if fst e = 0x40 then []
                 else 0x2e # fst e # (if snd e = 0x40 then [] else [snd e]))
      in map byte_char (base @ ext))"


section \<open>Errors\<close>

text \<open>
  Go errors as values, one constructor for each place the package makes one.
  \<open>stopReading\<close> and \<open>skipBlock\<close> are the two sentinel errors a scan callback may return.
  \<open>RuntimePanic\<close> stands for a run-time panic (an index out of range, a negative
  \<open>make\<close>): the call is aborted, nothing is returned to the caller.
  A function's \<open>error\<close> result is \<open>error option\<close>, \<open>None\<close> for \<open>nil\<close>.
\<close>

datatype error =
    stopReading
  | skipBlock
  | ErrNotPath
  | AbsFailed
  | OpenFailed string
  | TruncatedImage int int string
  | ErrUnexpectedEOF
  | EOF
  | NegativeOffset
  | BadFileDescriptor
  | GetBlocksNonPositiveCount int
  | GetBlocksNegativeStart int
  | GetBlocksOutOfRange int int
  | GetBlocksReadFailed int int error
  | GetBlocksTruncatedRead
  | WriteBlocksInvalidSize int
  | WriteBlocksNegativeStart int
  | WriteBlocksOutOfRange int int
  | TooManyEntries int int
  | CorruptDirectory int
  | MissingFilename
  | InvalidFilename string
  | InvalidBlockRange string
  | Named error string
  | FileNotFound string
  | SideNotFound string
  | RuntimePanic

section \<open>The image file and block transfer\<close>

text \<open>
  An open descriptor (\<open>*os.File\<close>) is the name it was opened under and whether it was
  opened read/write. The bytes of the file live outside the program; the functions
  below take them as \<open>img\<close> and, when they write, return the new bytes.
  The block numbers of a \<open>FileSystem\<close>, Go \<open>int\<close>s, are modelled as \<open>int\<close>: a
  filesystem made by \<open>OpenImage\<close> holds numbers below \<open>2 ^ 39\<close>, and the block transfer
  and the scan add 16-bit quantities to them and multiply by 512, which does not wrap.
\<close>

record osFile =
  fd_name :: string
  fd_rdwr :: bool

record FileSystem =
  fd :: osFile
  block0 :: int
  nblocks :: int

text \<open>
  \<open>ReadAt\<close> fills a buffer of \<open>n\<close> bytes from offset \<open>off\<close> or fails (a negative offset,
  or fewer than \<open>n\<close> bytes before the end of the file). \<open>WriteAt\<close> fails on a negative
  offset or on a descriptor not opened for writing; otherwise it stores the bytes at
  \<open>off\<close>, extending the file with zeros when \<open>off\<close> lies beyond its end.
\<close>

definition ReadAt :: "byte list \<Rightarrow> nat \<Rightarrow> int \<Rightarrow> error + byte list" where
  "ReadAt img n off =
     (if off < 0 then Inl NegativeOffset
      else if nat off + n \<le> length img then Inr (take n (drop (nat off) img))
      else Inl EOF)"

definition WriteAt :: "osFile \<Rightarrow> byte list \<Rightarrow> byte list \<Rightarrow> int \<Rightarrow> error option \<times> byte list" where
  "WriteAt d img data off =
     (if off < 0 then (Some NegativeOffset, img)
      else if \<not> fd_rdwr d then (Some BadFileDescriptor, img)
      else (None, take (nat off) (img @ replicate (nat off - length img) 0) @ data @
                  drop (nat off + length data) img))"

definition getBlocks :: "FileSystem \<Rightarrow> int \<Rightarrow> int \<Rightarrow> byte list \<Rightarrow> error + uint16 list" where
  "getBlocks f start cnt img =
     (if cnt \<le> 0 then Inl (GetBlocksNonPositiveCount cnt)
      else if start < 0 then Inl (GetBlocksNegativeStart start)
      else if start + cnt > nblocks f then Inl (GetBlocksOutOfRange (start + cnt) (nblocks f))
      else case ReadAt img (nat (cnt * 512)) ((block0 f + start) * 512) of
             Inl e \<Rightarrow> Inl (GetBlocksReadFailed (block0 f + start) cnt e)
           | Inr data \<Rightarrow>
               if int (length data) < cnt * 512 then Inl GetBlocksTruncatedRead
               else Inr (raw2words nativeOrder data))"

definition writeBlocks :: "FileSystem \<Rightarrow> int \<Rightarrow> uint16 list \<Rightarrow> byte list \<Rightarrow> error option \<times> byte list" where
  "writeBlocks f start ws img =
     (if length ws = 0 then (None, img)
      else let cnt = int (length ws) div 256 in
        if cnt * 256 \<noteq> int (length ws) then (Some (WriteBlocksInvalidSize (int (length ws))), img)
        else if start < 0 then (Some (WriteBlocksNegativeStart start), img)
        else if start + cnt > nblocks f then (Some (WriteBlocksOutOfRange (start + cnt) (nblocks f)), img)
        else WriteAt (fd f) img (words2raw nativeOrder ws) ((block0 f + start) * 512))"

section \<open>The directory scan\<close>

text \<open>
  \<open>scanData\<close> is what the callback receives. \<open>sd_words\<close> is the directory block; the
  source passes the slice itself, so a callback can store into it, and the \<open>block\<close>
  field of the source is the same memory seen as a \<open>dirBlock\<close>. The one callback
  that stores into it (in \<open>Remove\<close>) returns \<open>stopReading\<close>, after which \<open>scan\<close> reads
  the block no more, so the callback here gets the words by value.
  \<open>sd_file\<close> is \<open>None\<close> for a free extent.
\<close>

record scanData =
  sd_index :: int
  sd_loc :: int
  sd_block0 :: int
  sd_size :: int
  sd_words :: "uint16 list"
  sd_file :: "fileEntry option"

text \<open>
  A callback is a closure: it reads and changes variables of its maker and the image
  file. It is modelled as a function on a state \<open>(img, vars)\<close>.
\<close>

type_synonym 's callback = "scanData \<Rightarrow> byte list \<times> 's \<Rightarrow> error option \<times> (byte list \<times> 's)"

text \<open>The six words at \<open>loc\<close> seen as a \<open>fileEntry\<close>.\<close>

definition entry_at :: "uint16 list \<Rightarrow> int \<Rightarrow> fileEntry" where
  "entry_at ws loc =
     \<lparr>fe_name = take 4 (drop (nat loc) ws), fe_date = ws ! nat (loc + 4), fe_len = ws ! nat (loc + 5)\<rparr>"

text \<open>
  How the loop over the entries of one block ends: \<open>scan\<close> returns, or the loop is left
  (all entries read, or \<open>break Reading\<close>) and \<open>scan\<close> goes on to the next block.
\<close>

datatype flow = Return "error option" | NextBlock

text \<open>
  The loop labelled \<open>Reading\<close>. Its fifth argument counts the iterations left,
  \<open>nfiles - i\<close>; \<open>loc\<close> and \<open>blk\<close> are the loop's \<open>loc\<close> and \<open>block0\<close>. The length of a
  free extent is computed in \<open>uint16\<close> (\<open>010000 - edata[1]\<close> wraps), the length of a file
  by \<open>Len\<close> in \<open>int\<close>. Indexing outside the block panics; the entry is read through an
  unsafe pointer, and reading beyond the block is counted as a panic as well.
\<close>

fun Reading :: "'s callback \<Rightarrow> FileSystem \<Rightarrow> int \<Rightarrow> uint16 list \<Rightarrow> nat \<Rightarrow> int \<Rightarrow> int \<Rightarrow>
    byte list \<times> 's \<Rightarrow> flow \<times> (byte list \<times> 's)" where
  "Reading cb f index ws 0 loc blk st = (NextBlock, st)"
| "Reading cb f index ws (Suc k) loc blk st =
     (if loc < 0 \<or> int (length ws) \<le> loc then (Return (Some RuntimePanic), st)
      else if ws ! nat loc = 0 then
        (if int (length ws) \<le> loc + 1 then (Return (Some RuntimePanic), st)
         else let n = uint (4096 - ws ! nat (loc + 1)) in
           case cb \<lparr>sd_index = index, sd_loc = loc, sd_block0 = blk, sd_size = n,
                    sd_words = ws, sd_file = None\<rparr> st of
             (None, st') \<Rightarrow> Reading cb f index ws k (loc + 2) (blk + n) st'
           | (Some e, st') \<Rightarrow>
               if e = stopReading then (Return None, st')
               else if e = skipBlock then (NextBlock, st')
               else (Return (Some e), st'))
      else if int (length ws) < loc + 6 then (Return (Some RuntimePanic), st)
      else let e = entry_at ws loc in
        if blk + Len e > nblocks f then (Return (Some (CorruptDirectory (blk + Len e))), st)
        else
          case cb \<lparr>sd_index = index, sd_loc = loc, sd_block0 = blk, sd_size = Len e,
                   sd_words = ws, sd_file = Some e\<rparr> st of
            (None, st') \<Rightarrow> Reading cb f index ws k (loc + 6) (blk + Len e) st'
          | (Some err, st') \<Rightarrow>
              if err = stopReading then (Return None, st')
              else if err = skipBlock then (NextBlock, st')
              else (Return (Some err), st'))"

text \<open>
  The loop of \<open>scan\<close> over the chain of directory blocks, from block \<open>index\<close>. Nothing
  bounds the number of blocks it visits, so it is a partial function: \<open>None\<close> means
  that \<open>scan\<close> does not return. The entry count \<open>010000 - block.nfiles\<close> is computed in
  \<open>uint16\<close>.
\<close>

partial_function (option) scan_from ::
  "'s callback \<Rightarrow> FileSystem \<Rightarrow> int \<Rightarrow> byte list \<times> 's \<Rightarrow> (error option \<times> (byte list \<times> 's)) option" where
  "scan_from cb f index st =
     (if index = 0 then Some (None, st)
      else case getBlocks f index 1 (fst st) of
             Inl e \<Rightarrow> Some (Some e, st)
           | Inr ws \<Rightarrow>
               let nfiles = uint (4096 - ws ! 0) in
               if nfiles > 40 then Some (Some (TooManyEntries index nfiles), st)
               else case Reading cb f index ws (nat nfiles) 5 (uint (ws ! 1)) st of
                      (Return r, st') \<Rightarrow> Some (r, st')
                    | (NextBlock, st') \<Rightarrow> scan_from cb f (uint (ws ! 2)) st')"

definition scan :: "'s callback \<Rightarrow> FileSystem \<Rightarrow> byte list \<times> 's \<Rightarrow> (error option \<times> (byte list \<times> 's)) option" where
  "scan cb f st = scan_from cb f 1 st"

section \<open>Operations on one filesystem\<close>

text \<open>
  \<open>strings.ToUpper\<close> on a byte string. A string whose bytes are all below \<open>0x80\<close>
  (\<open>utf8.RuneSelf\<close>) is upper-cased byte by byte, \<open>a\<close> to \<open>z\<close> moved down by 32. Any
  other string is decoded into runes, mapped through the Unicode case tables and
  encoded again, \<open>strings.Map(unicode.ToUpper, s)\<close>. The tables belong to the Go
  library; that function is the argument \<open>MapUpper\<close>, and what is proved of \<open>ToUpper\<close>
  and its callers is proved for every such function.
\<close>

definition ToUpper :: "(string \<Rightarrow> string) \<Rightarrow> string \<Rightarrow> string" where
  "ToUpper MapUpper s =
     (if list_all (\<lambda>c. (of_char c :: nat) < 128) s
      then map (\<lambda>c. let n = (of_char c :: nat) in
                     if 97 \<le> n \<and> n \<le> 122 then char_of (n - 32) else c) s
      else MapUpper s)"

text \<open>\<open>strings.HasPrefix\<close> and \<open>strings.Index\<close>.\<close>

definition HasPrefix :: "string \<Rightarrow> string \<Rightarrow> bool" where
  "HasPrefix s pre = (take (length pre) s = pre)"

fun Index :: "string \<Rightarrow> char \<Rightarrow> nat option" where
  "Index [] c = None"
| "Index (x # xs) c = (if x = c then Some 0 else map_option Suc (Index xs c))"

text \<open>
  Go's \<open>copy(xs[at:], src)\<close>: as many elements as both slices hold are stored from
  position \<open>at\<close> on; the rest of \<open>xs\<close> stays. \<open>src\<close> is the value of the source slice
  before the call (overlapping slices are copied as if through a buffer).
\<close>

definition go_copy :: "'a list \<Rightarrow> nat \<Rightarrow> 'a list \<Rightarrow> 'a list" where
  "go_copy xs at src =
     (let n = min (length xs - at) (length src)
      in take at xs @ take n src @ drop (at + n) xs)"

record FileInfo =
  fi_Name :: string
  fi_Date :: uint16
  fi_Size :: int
  fi_Offset :: int

record File =
  f_fs :: FileSystem
  f_name :: string
  f_date :: uint16
  f_size :: int
  f_dir :: int
  f_loc :: int
  f_offset :: int
  f_words :: "uint16 list"

text \<open>\<open>FileSystem.List\<close>: the callback appends to \<open>fis\<close>; both results are returned.\<close>

definition List_cb :: "(FileInfo list) callback" where
  "List_cb sd st =
     (case sd_file sd of
        None \<Rightarrow> (None, st)
      | Some e \<Rightarrow>
          (None, (fst st, snd st @ [\<lparr>fi_Name = Name e, fi_Date = fe_date e,
                                     fi_Size = sd_size sd, fi_Offset = sd_block0 sd\<rparr>])))"

definition List :: "FileSystem \<Rightarrow> byte list \<Rightarrow> (FileInfo list \<times> error option) option" where
  "List f img = map_option (\<lambda>(err, (img', fis)). (fis, err)) (scan List_cb f (img, []))"

text \<open>
  \<open>FileSystem.Remove\<close>. The callback's variables are \<open>found\<close> and \<open>werr\<close>. The three
  stores into \<open>sd.words\<close> panic when \<open>loc + 6\<close> exceeds the block.
\<close>

definition Remove_cb :: "FileSystem \<Rightarrow> string \<Rightarrow> (bool \<times> error option) callback" where
  "Remove_cb f name sd st =
     (case sd_file sd of
        None \<Rightarrow> (None, st)
      | Some e \<Rightarrow>
          if Name e \<noteq> name then (None, st)
          else let loc = sd_loc sd; ws = sd_words sd in
            if loc < 0 \<or> int (length ws) < loc + 6 then (Some RuntimePanic, (fst st, True, snd (snd st)))
            else let ws = ws[nat loc := 0];
                     ws = ws[nat (loc + 1) := word_of_int (4096 - sd_size sd)];
                     ws = go_copy ws (nat (loc + 2)) (drop (nat (loc + 6)) ws);
                     w = writeBlocks f (sd_index sd) ws (fst st)
                 in (Some stopReading, (snd w, True, fst w)))"

definition Remove ::
  "(string \<Rightarrow> string) \<Rightarrow> FileSystem \<Rightarrow> string \<Rightarrow> byte list \<Rightarrow> (error option \<times> byte list) option" where
  "Remove MapUpper f name img =
     (let name = ToUpper MapUpper name in
      case scan (Remove_cb f name) f (img, False, None) of
        None \<Rightarrow> None
      | Some (err, (img', found, werr)) \<Rightarrow>
          Some (case err of
                  Some e \<Rightarrow> (Some e, img')
                | None \<Rightarrow> if \<not> found then (Some (FileNotFound name), img') else (werr, img')))"

text \<open>
  \<open>FileSystem.File\<close>. \<open>ParseUint\<close> stands for \<open>strconv.ParseUint(s, 0, 16)\<close>, \<open>None\<close> when
  it fails.
\<close>

definition File_cb :: "FileSystem \<Rightarrow> string \<Rightarrow> (File option) callback" where
  "File_cb f name sd st =
     (case sd_file sd of
        None \<Rightarrow> (None, st)
      | Some e \<Rightarrow>
          if Name e \<noteq> name then (None, st)
          else case getBlocks f (sd_block0 sd) (sd_size sd) (fst st) of
                 Inl err \<Rightarrow> (Some (Named err name), st)
               | Inr ws \<Rightarrow>
                   (Some stopReading,
                    (fst st, Some \<lparr>f_fs = f, f_name = name, f_date = fe_date e, f_size = sd_size sd,
                                  f_dir = sd_index sd, f_loc = sd_loc sd, f_offset = sd_block0 sd,
                                  f_words = ws\<rparr>)))"

definition FS_File ::
  "(string \<Rightarrow> nat option) \<Rightarrow> (string \<Rightarrow> string) \<Rightarrow> FileSystem \<Rightarrow> string \<Rightarrow> byte list \<Rightarrow>
   (error + File) option" where
  "FS_File ParseUint MapUpper f name img =
     (if name = [] then Some (Inl MissingFilename)
      else let name = ToUpper MapUpper name in
        if HasPrefix name ''.BLOCK'' then
          Some (let rest = drop 6 name;
                    starts = (case Index rest CHR ''-'' of None \<Rightarrow> rest | Some x \<Rightarrow> take x rest);
                    ends = (case Index rest CHR ''-'' of None \<Rightarrow> rest | Some x \<Rightarrow> drop (x + 1) rest)
                in case ParseUint starts of
                     None \<Rightarrow> Inl (InvalidFilename name)
                   | Some start \<Rightarrow>
                  (case ParseUint ends of
                     None \<Rightarrow> Inl (InvalidFilename name)
                   | Some end' \<Rightarrow>
                       if end' < start \<or> int start \<ge> nblocks f then Inl (InvalidBlockRange name)
                       else let end' = (if int end' \<ge> nblocks f then nblocks f - 1 else int end');
                                sz = end' - int start + 1
                            in case getBlocks f (int start) sz img of
                                 Inl err \<Rightarrow> Inl (Named err name)
                               | Inr ws \<Rightarrow>
                                   Inr \<lparr>f_fs = f, f_name = name, f_date = 0, f_size = sz, f_dir = 0,
                                        f_loc = 0, f_offset = int start, f_words = ws\<rparr>))
        else case scan (File_cb f name) f (img, None) of
               None \<Rightarrow> None
             | Some (Some err, st) \<Rightarrow> Some (Inl err)
             | Some (None, (img', Some file)) \<Rightarrow> Some (Inr file)
             | Some (None, (img', None)) \<Rightarrow> Some (Inl (FileNotFound name)))"

section \<open>Disks, sides and the registry of open images\<close>

record Drive =
  Tracks :: int
  Sectors :: int
  SectorSize :: int
  Bytes :: int
  Sides :: int

definition RK05 :: Drive where
  "RK05 = \<lparr>Tracks = 204, Sectors = 16, SectorSize = 256, Bytes = 1662976, Sides = 2\<rparr>"

definition RX01 :: Drive where
  "RX01 = \<lparr>Tracks = 77, Sectors = 26, SectorSize = 64, Bytes = 256256, Sides = 1\<rparr>"

definition RX02 :: Drive where
  "RX02 = \<lparr>Tracks = 77, Sectors = 26, SectorSize = 128, Bytes = 512512, Sides = 1\<rparr>"

definition Generic :: Drive where
  "Generic = \<lparr>Tracks = 0, Sectors = 0, SectorSize = 0, Bytes = 0, Sides = 0\<rparr>"

record Disk =
  d_path :: string
  d_fd :: osFile
  d_drive :: Drive
  sides :: "FileSystem list"

text \<open>
  \<open>Disk.getFS\<close>: the filesystem of the side a name selects and the rest of the name.
  \<open>Inr (None, name)\<close> is the source's \<open>(nil, name)\<close>; \<open>Inl RuntimePanic\<close> is the panic
  of \<open>d.sides[n]\<close> on an index outside the slice.
\<close>

definition getFS :: "Disk \<Rightarrow> string \<Rightarrow> error + (FileSystem option \<times> string)" where
  "getFS d name =
     (if length name > 2 \<and> name ! 1 = CHR '':'' then
        let n = int ((of_char (name ! 0) :: nat) OR 32) - 97 in
        if n < 0 \<or> n > int (length (sides d)) then Inr (None, name)
        else if int (length (sides d)) \<le> n then Inl RuntimePanic
        else Inr (Some (sides d ! nat n), drop 2 name)
      else if sides d = [] then Inl RuntimePanic
      else Inr (Some (sides d ! 0), name))"

definition Disk_File ::
  "(string \<Rightarrow> nat option) \<Rightarrow> (string \<Rightarrow> string) \<Rightarrow> Disk \<Rightarrow> string \<Rightarrow> byte list \<Rightarrow>
   (error + File) option" where
  "Disk_File ParseUint MapUpper d name img =
     (case getFS d name of
        Inl p \<Rightarrow> Some (Inl p)
      | Inr (None, name') \<Rightarrow> Some (Inl (SideNotFound name'))
      | Inr (Some fs, name') \<Rightarrow> FS_File ParseUint MapUpper fs name' img)"

definition Disk_Remove ::
  "(string \<Rightarrow> string) \<Rightarrow> Disk \<Rightarrow> string \<Rightarrow> byte list \<Rightarrow> (error option \<times> byte list) option" where
  "Disk_Remove MapUpper d name img =
     (case getFS d name of
        Inl p \<Rightarrow> Some (Some p, img)
      | Inr (None, name') \<Rightarrow> Some (Some (SideNotFound name'), img)
      | Inr (Some fs, name') \<Rightarrow> Remove MapUpper fs name' img)"

text \<open>
  The fields of a \<open>Drive\<close> are Go \<open>int\<close>s, 64 bits wide on the hosts the package is
  built for; products and decrements of them wrap. \<open>int64\<close> is the value a result
  has after wrapping.
\<close>

definition int64 :: "int \<Rightarrow> int" where
  "int64 x = (x + 2 ^ 63) mod 2 ^ 64 - 2 ^ 63"

text \<open>
  The loop of \<open>Drive.OpenImage\<close> that settles the number of sides:
  \<open>for d.Bytes*d.Sides < int(fi.Size()) { d.Sides-- }\<close>. It need not end (with
  \<open>Bytes = 0\<close> the product stays 0), so \<open>None\<close> stands for not returning.
\<close>

partial_function (option) count_sides :: "int \<Rightarrow> int \<Rightarrow> int \<Rightarrow> int option" where
  "count_sides bytes sds sz =
     (if int64 (bytes * sds) < sz then count_sides bytes (int64 (sds - 1)) sz else Some sds)"

text \<open>
  \<open>make\<close> panics on a negative length and on one whose bytes exceed the largest
  allocation of the run-time system, \<open>maxAlloc\<close>, which is \<open>2 ^ 48\<close> on a 64-bit host;
  \<open>make_panics n w\<close> tells so for \<open>n\<close> elements of \<open>w\<close> bytes. An allocation within
  that bound is taken to succeed.
\<close>

definition maxAlloc :: int where
  "maxAlloc = 2 ^ 48"

definition make_panics :: "int \<Rightarrow> int \<Rightarrow> bool" where
  "make_panics n w = (n < 0 \<or> maxAlloc < n * w)"

text \<open>Go's integer division truncates towards zero.\<close>

definition quot :: "int \<Rightarrow> int \<Rightarrow> int" where
  "quot a b = (if (a < 0) = (b < 0) then \<bar>a\<bar> div \<bar>b\<bar> else - (\<bar>a\<bar> div \<bar>b\<bar>))"

text \<open>
  \<open>Drive.OpenImage\<close>. The world outside: \<open>DefaultImage\<close> (set from the environment at
  start-up), \<open>Abs\<close> for \<open>filepath.Abs\<close> (\<open>None\<close> when it fails) and \<open>files\<close>, the
  existing files by absolute path with their bytes. The registry \<open>drives\<close> is the
  state; the lock around it has no effect on a single caller. A file that exists is
  taken to open in either mode. \<open>io.ReadFull\<close> into a buffer longer than the file ends
  in \<open>io.EOF\<close> when it read nothing and in \<open>io.ErrUnexpectedEOF\<close> otherwise. The
  shifts \<open>>> 9\<close> are arithmetic, which is \<open>div 512\<close>.
\<close>

definition OpenImage ::
  "string \<Rightarrow> (string \<Rightarrow> string option) \<Rightarrow> (string \<rightharpoonup> byte list) \<Rightarrow>
   Drive \<Rightarrow> string \<Rightarrow> bool \<Rightarrow> (string \<rightharpoonup> Disk) \<Rightarrow> ((error + Disk) \<times> (string \<rightharpoonup> Disk)) option" where
  "OpenImage DefaultImage Abs files d path rw drives =
     (let path = (if path = [] then DefaultImage else path) in
      if path = [] then Some (Inl ErrNotPath, drives)
      else case Abs path of
        None \<Rightarrow> Some (Inl AbsFailed, drives)
      | Some path \<Rightarrow>
      (case drives path of
        Some disk \<Rightarrow> Some (Inr disk, drives)
      | None \<Rightarrow>
      (case files path of
        None \<Rightarrow> Some (Inl (OpenFailed path), drives)
      | Some content \<Rightarrow>
          let sz = int (length content);
              d = (if Sides d = 0 then d\<lparr>Sides := 1\<rparr> else d);
              d = (if Bytes d = 0 then d\<lparr>Bytes := quot sz (Sides d)\<rparr> else d)
          in if Bytes d > sz then Some (Inl (TruncatedImage sz (Bytes d) path), drives)
             else case count_sides (Bytes d) (Sides d) sz of
               None \<Rightarrow> None
             | Some s \<Rightarrow>
                 let d = d\<lparr>Sides := s\<rparr>;
                     total = int64 (Bytes d * Sides d)
                 in
                 if make_panics total 1 then Some (Inl RuntimePanic, drives)
                 else if sz < total
                   then Some (Inl (if sz = 0 then EOF else ErrUnexpectedEOF), drives)
                 else if make_panics (Sides d) 8 then Some (Inl RuntimePanic, drives)
                 else let h = \<lparr>fd_name = path, fd_rdwr = rw\<rparr>;
                          disk = \<lparr>d_path = path, d_fd = h, d_drive = d,
                                  sides = map (\<lambda>s. \<lparr>fd = h, block0 = int64 (int s * Bytes d) div 512,
                                                     nblocks = Bytes d div 512\<rparr>)
                                            [0 ..< nat (Sides d)]\<rparr>
                      in Some (Inr disk, drives(path \<mapsto> disk)))))"

section \<open>Notions used to state the properties\<close>

text \<open>
  \<open>Probe_cb\<close> is a callback that changes nothing on disk: it stops at the first file
  entry whose name is \<open>name\<close> and keeps the record the scan passed for it. A scan with
  it tells which entry, if any, a name matches.
\<close>

definition Probe_cb :: "string \<Rightarrow> (scanData option) callback" where
  "Probe_cb name sd st =
     (case sd_file sd of
        None \<Rightarrow> (None, st)
      | Some e \<Rightarrow> if Name e \<noteq> name then (None, st) else (Some stopReading, (fst st, Some sd)))"

text \<open>
  \<open>Trace_cb r\<close> keeps every record the scan passes, in order; \<open>r\<close> chooses what the
  callback returns for a record.
\<close>

definition Trace_cb :: "(scanData \<Rightarrow> error option) \<Rightarrow> (scanData list) callback" where
  "Trace_cb r sd st = (r sd, (fst st, snd st @ [sd]))"

text \<open>
  \<open>chain_ends f img n index\<close>: following the next-block words from directory block
  \<open>index\<close> reaches 0, or a block that cannot be read, within \<open>n\<close> blocks.
\<close>

fun chain_ends :: "FileSystem \<Rightarrow> byte list \<Rightarrow> nat \<Rightarrow> int \<Rightarrow> bool" where
  "chain_ends f img 0 index = (index = 0)"
| "chain_ends f img (Suc n) index =
     (index = 0 \<or>
      (case getBlocks f index 1 img of
         Inl e \<Rightarrow> True
       | Inr ws \<Rightarrow> chain_ends f img n (uint (ws ! 2))))"

text \<open>A record is in range when it is a free extent or its blocks end within the filesystem.\<close>

definition in_range :: "FileSystem \<Rightarrow> scanData \<Rightarrow> bool" where
  "in_range f sd = (sd_file sd = None \<or> sd_block0 sd + sd_size sd \<le> nblocks f)"

text \<open>
  The entries of a directory block as the specification lays them out.
  \<open>entry_len ws loc\<close> is the length in blocks of the entry at word \<open>loc\<close>: of a free
  extent, whose first word is 0, \<open>0o10000\<close> minus its second word, and of a file
  \<open>0o10000\<close> minus its length word. \<open>entry_locs ws k loc\<close> are the word offsets of
  \<open>k\<close> entries in a row, the first at \<open>loc\<close>: a free extent takes two words, a file six.
\<close>

definition entry_len :: "uint16 list \<Rightarrow> int \<Rightarrow> int" where
  "entry_len ws loc =
     (if ws ! nat loc = 0 then uint (4096 - ws ! nat (loc + 1)) else Len (entry_at ws loc))"

fun entry_locs :: "uint16 list \<Rightarrow> nat \<Rightarrow> int \<Rightarrow> int list" where
  "entry_locs ws 0 loc = []"
| "entry_locs ws (Suc k) loc = loc # entry_locs ws k (loc + (if ws ! nat loc = 0 then 2 else 6))"

text \<open>
  The record of the \<open>j\<close>-th of the entries at \<open>locs\<close>. Its cursor is \<open>b0\<close> plus the
  lengths of the entries before it. \<open>records_of\<close> are the records of a whole block: as
  many entries as the header counts, from word 5, the cursor starting at the header's
  first data block.
\<close>

definition record_of :: "int \<Rightarrow> uint16 list \<Rightarrow> int \<Rightarrow> int list \<Rightarrow> nat \<Rightarrow> scanData" where
  "record_of index ws b0 locs j =
     \<lparr>sd_index = index, sd_loc = locs ! j,
      sd_block0 = b0 + sum_list (map (entry_len ws) (take j locs)),
      sd_size = entry_len ws (locs ! j), sd_words = ws,
      sd_file = (if ws ! nat (locs ! j) = 0 then None else Some (entry_at ws (locs ! j)))\<rparr>"

definition records_of :: "int \<Rightarrow> uint16 list \<Rightarrow> scanData list" where
  "records_of index ws =
     map (record_of index ws (uint (ws ! 1)) (entry_locs ws (nat (uint (4096 - ws ! 0))) 5))
       [0 ..< nat (uint (4096 - ws ! 0))]"

text \<open>
  What a scan that is never stopped yields of the records of a block, and how it leaves
  the block: the records before the first one that is out of range, a file whose blocks
  end beyond \<open>nblocks\<close>; that one ends the scan with the corrupt-directory error.
  \<open>walk_n\<close> does so along the chain of directory blocks, within a bound on their number.
\<close>

definition yielded :: "FileSystem \<Rightarrow> scanData list \<Rightarrow> flow \<times> scanData list" where
  "yielded f rs =
     (let ys = takeWhile (in_range f) rs
      in (if length ys < length rs
          then Return (Some (CorruptDirectory (sd_block0 (rs ! length ys) + sd_size (rs ! length ys))))
          else NextBlock, ys))"

fun walk_n :: "nat \<Rightarrow> FileSystem \<Rightarrow> byte list \<Rightarrow> int \<Rightarrow> (error option \<times> scanData list) option" where
  "walk_n 0 f img index = None"
| "walk_n (Suc n) f img index =
     (if index = 0 then Some (None, [])
      else case getBlocks f index 1 img of
             Inl e \<Rightarrow> Some (Some e, [])
           | Inr ws \<Rightarrow>
               if uint (4096 - ws ! 0) > 40
               then Some (Some (TooManyEntries index (uint (4096 - ws ! 0))), [])
               else case yielded f (records_of index ws) of
                      (Return r, ys) \<Rightarrow> Some (r, ys)
                    | (NextBlock, ys) \<Rightarrow>
                        map_option (\<lambda>(e, l). (e, ys @ l)) (walk_n n f img (uint (ws ! 2))))"

text \<open>
  A directory block after the entry at \<open>loc\<close>, a file of \<open>sz\<close> blocks, has been collapsed
  as the specification describes it: the words before \<open>loc\<close> as they were, the free
  marker \<open>0, 0o10000 - sz\<close>, the words from \<open>loc + 6\<close> to the end of the block moved
  up by four, and the last four words of the block once more.
\<close>

definition collapsed :: "uint16 list \<Rightarrow> nat \<Rightarrow> int \<Rightarrow> uint16 list" where
  "collapsed ws loc sz =
     take loc ws @ [0, word_of_int (4096 - sz)] @ drop (loc + 6) ws @ drop (length ws - 4) ws"

text \<open>
  \<open>entry_record f nm idx ws sd\<close>: \<open>sd\<close> is the record a scan passes for a file entry
  named \<open>nm\<close> that lies, in range, in the directory block \<open>idx\<close> with words \<open>ws\<close>.
\<close>

definition entry_record :: "FileSystem \<Rightarrow> string \<Rightarrow> int \<Rightarrow> uint16 list \<Rightarrow> scanData \<Rightarrow> bool" where
  "entry_record f nm idx ws sd =
     (sd_index sd = idx \<and> sd_words sd = ws \<and> 0 \<le> sd_loc sd \<and> sd_loc sd + 6 \<le> int (length ws) \<and>
      ws ! nat (sd_loc sd) \<noteq> 0 \<and> sd_file sd = Some (entry_at ws (sd_loc sd)) \<and>
      Name (entry_at ws (sd_loc sd)) = nm \<and> sd_size sd = Len (entry_at ws (sd_loc sd)) \<and>
      sd_block0 sd + sd_size sd \<le> nblocks f)"

text \<open>A listing without its first entry of a given name.\<close>

fun without_first :: "string \<Rightarrow> FileInfo list \<Rightarrow> FileInfo list" where
  "without_first name [] = []"
| "without_first name (x # xs) = (if fi_Name x = name then xs else x # without_first name xs)"

text \<open>
  The scan with a bound on the number of directory blocks it may visit: \<open>scan_n n\<close> is
  \<open>scan_from\<close> cut off after \<open>n\<close> blocks (\<open>None\<close> when the bound is reached). It returns
  a result for some \<open>n\<close> exactly when \<open>scan_from\<close> returns it.
\<close>

fun scan_n :: "nat \<Rightarrow> 's callback \<Rightarrow> FileSystem \<Rightarrow> int \<Rightarrow> byte list \<times> 's \<Rightarrow>
    (error option \<times> (byte list \<times> 's)) option" where
  "scan_n 0 cb f index st = None"
| "scan_n (Suc n) cb f index st =
     (if index = 0 then Some (None, st)
      else case getBlocks f index 1 (fst st) of
             Inl e \<Rightarrow> Some (Some e, st)
           | Inr ws \<Rightarrow>
               let nfiles = uint (4096 - ws ! 0) in
               if nfiles > 40 then Some (Some (TooManyEntries index nfiles), st)
               else case Reading cb f index ws (nat nfiles) 5 (uint (ws ! 1)) st of
                      (Return r, st') \<Rightarrow> Some (r, st')
                    | (NextBlock, st') \<Rightarrow> scan_n n cb f (uint (ws ! 2)) st')"

text \<open>
  What listing does with the entries of one directory block, and with the chain of
  blocks within a bound, as functions of the words alone: \<open>entries_of\<close> is the loop
  \<open>Reading\<close> run for the callback of \<open>List\<close>, reduced to how it ends and what it
  appends.
\<close>

definition entries_of :: "FileSystem \<Rightarrow> uint16 list \<Rightarrow> nat \<Rightarrow> int \<Rightarrow> int \<Rightarrow> flow \<times> FileInfo list" where
  "entries_of f ws k loc blk =
     (let r = Reading List_cb f 0 ws k loc blk ([], []) in (fst r, snd (snd r)))"

fun listing_n :: "nat \<Rightarrow> FileSystem \<Rightarrow> byte list \<Rightarrow> int \<Rightarrow> (error option \<times> FileInfo list) option" where
  "listing_n 0 f img index = None"
| "listing_n (Suc n) f img index =
     (if index = 0 then Some (None, [])
      else case getBlocks f index 1 img of
             Inl e \<Rightarrow> Some (Some e, [])
           | Inr ws \<Rightarrow>
               if uint (4096 - ws ! 0) > 40 then Some (Some (TooManyEntries index (uint (4096 - ws ! 0))), [])
               else case entries_of f ws (nat (uint (4096 - ws ! 0))) 5 (uint (ws ! 1)) of
                      (Return r, es) \<Rightarrow> Some (r, es)
                    | (NextBlock, es) \<Rightarrow>
                        map_option (\<lambda>(e, l). (e, es @ l)) (listing_n n f img (uint (ws ! 2))))"

text \<open>
  \<open>rewritten f img img' B ws'\<close>: read through \<open>f\<close>, the image \<open>img'\<close> has the words
  \<open>ws'\<close> in block \<open>B\<close> and is \<open>img\<close> in every other single block.
\<close>

definition rewritten :: "FileSystem \<Rightarrow> byte list \<Rightarrow> byte list \<Rightarrow> int \<Rightarrow> uint16 list \<Rightarrow> bool" where
  "rewritten f img img' B ws' =
     (getBlocks f B 1 img' = Inr ws' \<and> (\<forall>i. i \<noteq> B \<longrightarrow> getBlocks f i 1 img' = getBlocks f i 1 img))"

section \<open>Small images\<close>

text \<open>
  Images used to run the operations on concrete data: \<open>image_of\<close> lays blocks of words
  out as the bytes of a file, \<open>block_of\<close> pads a list of words with zeros to the 256
  words of a block.
\<close>

definition block_of :: "uint16 list \<Rightarrow> uint16 list" where
  "block_of ws = ws @ replicate (256 - length ws) 0"

definition image_of :: "uint16 list list \<Rightarrow> byte list" where
  "image_of blocks = concat (map (words2raw nativeOrder) blocks)"

text \<open>
  A filesystem of four blocks on a descriptor opened read/write. Its directory (block 1)
  lists two files of one block each, \<open>NAME.GO\<close> at block 2 and \<open>AB\<close> at block 3.
\<close>

definition fs4 :: FileSystem where
  "fs4 = \<lparr>fd = \<lparr>fd_name = ''/os8.img'', fd_rdwr = True\<rparr>, block0 = 0, nblocks = 4\<rparr>"

definition two_files_dir :: "uint16 list" where
  "two_files_dir = block_of [4094, 2, 0, 0, 0,  897, 837, 0, 463, 0, 4095,  66, 0, 0, 0, 0, 4095]"

definition two_files_img :: "byte list" where
  "two_files_img = image_of [block_of [], two_files_dir, block_of [7], block_of [8]]"

text \<open>The same with both entries named \<open>NAME.GO\<close>.\<close>

definition twins_dir :: "uint16 list" where
  "twins_dir = block_of [4094, 2, 0, 0, 0,  897, 837, 0, 463, 0, 4095,  897, 837, 0, 463, 0, 4095]"

definition twins_img :: "byte list" where
  "twins_img = image_of [block_of [], twins_dir, block_of [7], block_of [8]]"

text \<open>
  A filesystem of two blocks whose directory holds one free extent of one block and
  names itself, block 1, as the next directory block.
\<close>

definition fs2 :: FileSystem where
  "fs2 = \<lparr>fd = \<lparr>fd_name = ''/os8.img'', fd_rdwr = True\<rparr>, block0 = 0, nblocks = 2\<rparr>"

definition loop_dir :: "uint16 list" where
  "loop_dir = block_of [4095, 2, 1, 0, 0,  0, 4095]"

definition loop_img :: "byte list" where
  "loop_img = image_of [block_of [], loop_dir]"

text \<open>The filesystem \<open>fs4\<close> cut down to three blocks.\<close>

definition fs3 :: FileSystem where
  "fs3 = \<lparr>fd = \<lparr>fd_name = ''/os8.img'', fd_rdwr = True\<rparr>, block0 = 0, nblocks = 3\<rparr>"

text \<open>
  A directory of one free extent of 100 blocks starting at block 2, in a filesystem
  of two blocks.
\<close>

definition big_free_dir :: "uint16 list" where
  "big_free_dir = block_of [4095, 2, 0, 0, 0,  0, 3996]"

definition big_free_img :: "byte list" where
  "big_free_img = image_of [block_of [], big_free_dir]"

text \<open>
  The two images above after \<open>NAME.GO\<close> has been removed: the first entry of the
  directory is a free extent of one block, the second entry has moved up.
\<close>

definition twins_after_dir :: "uint16 list" where
  "twins_after_dir = block_of [4094, 2, 0, 0, 0,  0, 4095,  897, 837, 0, 463, 0, 4095]"

definition twins_after_img :: "byte list" where
  "twins_after_img = image_of [block_of [], twins_after_dir, block_of [7], block_of [8]]"

definition two_files_after_dir :: "uint16 list" where
  "two_files_after_dir = block_of [4094, 2, 0, 0, 0,  0, 4095,  66, 0, 0, 0, 0, 4095]"

definition two_files_after_img :: "byte list" where
  "two_files_after_img = image_of [block_of [], two_files_after_dir, block_of [7], block_of [8]]"

text \<open>
  The image of two files where the first entry has the length word \<open>0o177777\<close>, which
  is a size of \<open>-61439\<close> blocks, and that image after \<open>NAME.GO\<close> has been removed.
\<close>

definition wide_dir :: "uint16 list" where
  "wide_dir = block_of [4094, 2, 0, 0, 0,  897, 837, 0, 463, 0, 65535,  66, 0, 0, 0, 0, 4095]"

definition wide_img :: "byte list" where
  "wide_img = image_of [block_of [], wide_dir, block_of [7], block_of [8]]"

definition wide_after_dir :: "uint16 list" where
  "wide_after_dir = block_of [4094, 2, 0, 0, 0,  0, 65535,  66, 0, 0, 0, 0, 4095]"

definition wide_after_img :: "byte list" where
  "wide_after_img = image_of [block_of [], wide_after_dir, block_of [7], block_of [8]]"

text \<open>
  A directory block whose count word is 0, which stands for 4096 entries, in a
  filesystem of two blocks.
\<close>

definition uncounted_dir :: "uint16 list" where
  "uncounted_dir = block_of [0, 2, 0, 0, 0]"

definition uncounted_img :: "byte list" where
  "uncounted_img = image_of [block_of [], uncounted_dir]"

text \<open>A disk of two sides, as \<open>OpenImage\<close> builds it for a full RK05 image.\<close>

definition rk05_disk :: Disk where
  "rk05_disk =
     \<lparr>d_path = ''/os8.rk05'', d_fd = \<lparr>fd_name = ''/os8.rk05'', fd_rdwr = True\<rparr>, d_drive = RK05,
      sides = [\<lparr>fd = \<lparr>fd_name = ''/os8.rk05'', fd_rdwr = True\<rparr>, block0 = 0, nblocks = 3248\<rparr>,
               \<lparr>fd = \<lparr>fd_name = ''/os8.rk05'', fd_rdwr = True\<rparr>, block0 = 3248, nblocks = 3248\<rparr>]\<rparr>"

text \<open>
  The handle \<open>OpenImage\<close> makes for a file \<open>/a\<close> of 1024 bytes opened read-only with
  the \<open>Generic\<close> drive.
\<close>

definition generic_disk :: Disk where
  "generic_disk =
     \<lparr>d_path = ''/a'', d_fd = \<lparr>fd_name = ''/a'', fd_rdwr = False\<rparr>,
      d_drive = \<lparr>Tracks = 0, Sectors = 0, SectorSize = 0, Bytes = 1024, Sides = 1\<rparr>,
      sides = [\<lparr>fd = \<lparr>fd_name = ''/a'', fd_rdwr = False\<rparr>, block0 = 0, nblocks = 2\<rparr>]\<rparr>"

section \<open>Properties of the word codec\<close>

lemma nativeOrder_holds: "nativeOrder"
  by (simp add: nativeOrder_def word_cat_eq)

lemma alias_words_length: "length (alias_words raw) = length raw div 2"
  by (induction raw rule: alias_words.induct) auto

lemma word_cat_bytes:
  "(word_cat (hi::byte) (lo::byte) :: uint16) = ucast lo OR push_bit 8 (ucast hi)"
  by (rule bit_word_eqI) (auto simp add: bit_simps dest: bit_imp_le_length)

lemma alias_words_nth:
  "i < length raw div 2 \<Longrightarrow>
   alias_words raw ! i = ucast (raw ! (i * 2)) OR push_bit 8 (ucast (raw ! (i * 2 + 1)))"
proof (induction raw arbitrary: i rule: alias_words.induct)
  case (1 lo hi rest)
  then show ?case by (cases i) (auto simp: word_cat_bytes)
qed auto

lemma raw2words_alias: "raw2words native raw = alias_words raw"
  by (auto simp: raw2words_def list_eq_iff_nth_eq alias_words_length alias_words_nth)

lemma words2raw_alias: "words2raw native ws = alias_bytes ws"
  by (induction ws) (auto simp: words2raw_def)

lemma low_byte_cat: "(ucast (word_cat (hi::byte) (lo::byte) :: uint16) :: byte) = lo"
  by (rule bit_word_eqI) (auto simp add: bit_simps dest: bit_imp_le_length)

lemma high_byte_cat: "(ucast (drop_bit 8 (word_cat (hi::byte) (lo::byte) :: uint16)) :: byte) = hi"
  by (rule bit_word_eqI) (auto simp add: bit_simps dest: bit_imp_le_length)

lemma cat_of_bytes: "word_cat (ucast (drop_bit 8 w) :: byte) (ucast w :: byte) = (w :: uint16)"
  by (rule bit_word_eqI) (auto simp add: bit_simps dest: bit_imp_le_length)

lemma alias_bytes_words: "even (length b) \<Longrightarrow> alias_bytes (alias_words b) = b"
  by (induction b rule: alias_words.induct) (auto simp: low_byte_cat high_byte_cat)

lemma alias_words_bytes: "alias_words (alias_bytes ws) = ws"
  by (induction ws) (auto simp: cat_of_bytes)

lemma alias_bytes_length: "length (alias_bytes ws) = 2 * length ws"
  by (induction ws) auto

lemma word_less_pow_bits:
  "n < LENGTH('a) \<Longrightarrow> ((w::'a::len word) < 2 ^ n) = (\<forall>k. bit w k \<longrightarrow> k < n)"
proof -
  assume n: "n < LENGTH('a)"
  have "(w < 2 ^ n) = (take_bit n w = w)"
    using n mask_eq_iff_w2p[of n w] by (simp add: take_bit_eq_mask word_size)
  also have "\<dots> = (\<forall>k. bit w k \<longrightarrow> k < n)"
    by (auto simp: bit_eq_iff bit_take_bit_iff dest: bit_imp_le_length)
  finally show ?thesis .
qed

lemma cat_small: "hi < 16 \<Longrightarrow> (word_cat (hi::byte) (lo::byte) :: uint16) < 0x1000"
  using word_less_pow_bits[of 4 hi] word_less_pow_bits[of 12 "word_cat hi lo :: uint16"]
  by (auto simp: bit_word_cat_iff dest: bit_imp_le_length split: if_splits)

lemma high_byte_small: "(w::uint16) < 0x1000 \<Longrightarrow> (ucast (drop_bit 8 w) :: byte) < 16"
  using word_less_pow_bits[of 12 w] word_less_pow_bits[of 4 "ucast (drop_bit 8 w) :: byte"]
  by (auto simp: bit_simps)

lemma alias_words_small:
  "\<forall>i<length b. odd i \<longrightarrow> b ! i < 16 \<Longrightarrow> w \<in> set (alias_words b) \<Longrightarrow> w < 0x1000"
proof (induction b rule: alias_words.induct)
  case (1 lo hi rest)
  from "1.prems"(1) have hi: "hi < 16" by (auto dest: spec[of _ 1])
  have rest: "\<forall>i<length rest. odd i \<longrightarrow> rest ! i < 16"
  proof (intro allI impI)
    fix i assume "i < length rest" "odd i"
    with "1.prems"(1)[rule_format, of "Suc (Suc i)"]
    have "(lo # hi # rest) ! (Suc (Suc i)) < 16" by simp
    then show "rest ! i < 16" by simp
  qed
  from "1.prems"(2) show ?case
    using hi "1.IH"[OF rest] by (auto simp: cat_small)
qed auto

lemma alias_bytes_small:
  "\<forall>w\<in>set ws. w < 0x1000 \<Longrightarrow> i < length (alias_bytes ws) \<Longrightarrow> odd i \<Longrightarrow>
   alias_bytes ws ! i < 16"
proof (induction ws arbitrary: i)
  case (Cons w ws)
  show ?case
  proof (cases i)
    case 0
    with Cons.prems show ?thesis by simp
  next
    case (Suc j)
    show ?thesis
    proof (cases j)
      case 0
      with Suc Cons.prems show ?thesis by (simp add: high_byte_small)
    next
      case (Suc k)
      with \<open>i = Suc j\<close> Cons.prems Cons.IH[of k] show ?thesis by simp
    qed
  qed
qed simp

text \<open>
  C3. Codec round trip: a byte sequence of even length whose every second byte has a zero
  top nibble is restored by \<open>raw2words\<close> followed by \<open>words2raw\<close>, and a word sequence whose
  every word is below \<open>0o10000\<close> (4096) is restored by \<open>words2raw\<close> followed by
  \<open>raw2words\<close>, whichever branch of the codec the host selects.
\<close>

theorem codec_round_trip:
  "(even (length b) \<and> (\<forall>i<length b. odd i \<longrightarrow> b ! i AND 0xF0 = 0)
      \<longrightarrow> words2raw n1 (raw2words n2 b) = b) \<and>
   ((\<forall>w\<in>set ws. w < 0x1000) \<longrightarrow> raw2words n3 (words2raw n4 ws) = ws)"
  by (simp add: raw2words_alias words2raw_alias alias_bytes_words alias_words_bytes)

theorem codec_round_trip_witness:
  "words2raw nativeOrder (raw2words nativeOrder [0x34, 0x02]) = [0x34, 0x02] \<and>
   raw2words nativeOrder (words2raw nativeOrder [0x234]) = [0x234]"
proof -
  have h1: "even (length [0x34, 0x02 :: byte]) \<and>
      (\<forall>i<length [0x34, 0x02 :: byte]. odd i \<longrightarrow> [0x34, 0x02 :: byte] ! i AND 0xF0 = 0)"
    by (simp add: less_Suc_eq)
  have h2: "\<forall>w\<in>set [0x234 :: uint16]. w < 0x1000" by simp
  from h1 h2 codec_round_trip[of "[0x34, 0x02]" nativeOrder nativeOrder "[0x234]" nativeOrder nativeOrder]
  show ?thesis by blast
qed

text \<open>
  C4, as the code has it. Neither direction of the codec masks anything: a high byte
  \<open>0xF0\<close> decodes to the word \<open>0xF000\<close>, and that word encodes to the high byte \<open>0xF0\<close>.
\<close>

theorem codec_keeps_high_bits:
  "raw2words nativeOrder [0x00, 0xF0] = [0xF000] \<and> \<not> (0xF000 :: uint16) < 0x1000 \<and>
   words2raw nativeOrder [0xF000] = [0x00, 0xF0] \<and> (0xF0 :: byte) AND 0xF0 \<noteq> 0 \<and>
   raw2words False [0x00, 0xF0] = [0xF000] \<and> words2raw False [0xF000] = [0x00, 0xF0]"
  by (simp add: raw2words_def words2raw_def nativeOrder_holds word_cat_eq)

text \<open>
  C4, amended. The codec keeps twelve-bit data twelve-bit: when every second input byte
  is below 16 (top nibble zero), every word \<open>raw2words\<close> produces is below \<open>0o10000\<close>;
  when every input word is below \<open>0o10000\<close>, every second byte \<open>words2raw\<close> produces is
  below 16.
\<close>

theorem codec_preserves_twelve_bits:
  "((\<forall>i<length b. odd i \<longrightarrow> b ! i < 16) \<longrightarrow> (\<forall>w\<in>set (raw2words n1 b). w < 0x1000)) \<and>
   ((\<forall>w\<in>set ws. w < 0x1000) \<longrightarrow>
      (\<forall>i<length (words2raw n2 ws). odd i \<longrightarrow> words2raw n2 ws ! i < 16))"
  using alias_words_small[of b] alias_bytes_small[of ws]
  by (auto simp: raw2words_alias words2raw_alias)

theorem codec_preserves_twelve_bits_witness:
  "raw2words nativeOrder [0x34, 0x02] ! 0 < 0x1000 \<and> words2raw nativeOrder [0x234] ! 1 < 16"
proof -
  have h1: "\<forall>i<length [0x34, 0x02 :: byte]. odd i \<longrightarrow> [0x34, 0x02 :: byte] ! i < 16"
    by (simp add: less_Suc_eq)
  have h2: "\<forall>w\<in>set [0x234 :: uint16]. w < 0x1000" by simp
  have l1: "raw2words nativeOrder [0x34, 0x02] ! 0 \<in> set (raw2words nativeOrder [0x34, 0x02])"
    by (simp add: raw2words_alias)
  have l2: "1 < length (words2raw nativeOrder [0x234])"
    by (simp add: words2raw_alias)
  from h1 h2 codec_preserves_twelve_bits[of "[0x34, 0x02]" nativeOrder "[0x234]" nativeOrder]
  have "(\<forall>w\<in>set (raw2words nativeOrder [0x34, 0x02]). w < 0x1000) \<and>
        (\<forall>i<length (words2raw nativeOrder [0x234]). odd i \<longrightarrow> words2raw nativeOrder [0x234] ! i < 16)"
    by blast
  with l1 l2 show ?thesis by auto
qed

section \<open>Properties of name decoding\<close>

text \<open>
  C9, as the code has it. The words \<open>01616, 01505, 00000, 00717\<close> (octal; 910, 837, 0,
  463) decode to \<open>NNME.GO\<close>: the low half of \<open>01616\<close> is 016, the letter N.
\<close>

theorem Name_01616_counterexample:
  "Name \<lparr>fe_name = [910, 837, 0, 463], fe_date = 0, fe_len = 0\<rparr> \<noteq> ''NAME.GO''"
  by code_simp

text \<open>
  C9, amended. \<open>Name\<close> yields the characters of the first three words up to the first
  \<open>@\<close>, then, when the first character of the fourth word is not \<open>@\<close>, a dot and at most two
  extension characters, stopping at \<open>@\<close>; and the words \<open>01601, 01505, 00000, 00717\<close>
  (octal; 897, 837, 0, 463) decode to \<open>NAME.GO\<close>.
\<close>

theorem Name_decodes:
  "Name \<lparr>fe_name = [w0, w1, w2, w3], fe_date = d, fe_len = l\<rparr> = name_decoding w0 w1 w2 w3 \<and>
   Name \<lparr>fe_name = [897, 837, 0, 463], fe_date = d, fe_len = l\<rparr> = ''NAME.GO''"
proof -
  have general: "Name \<lparr>fe_name = [v0, v1, v2, v3], fe_date = d, fe_len = l\<rparr> = name_decoding v0 v1 v2 v3"
    for v0 v1 v2 v3
    by (simp add: Name_def name_decoding_def Let_def split: prod.splits)
  have "name_decoding 897 837 0 463 = ''NAME.GO''"
    by code_simp
  with general[of 897 837 0 463] general[of w0 w1 w2 w3] show ?thesis
    by simp
qed


section \<open>Reading blocks of the small images\<close>

lemma block_of_length: "length ws \<le> 256 \<Longrightarrow> length (block_of ws) = 256"
  by (simp add: block_of_def)

lemma image_of_Cons: "image_of (b # bs) = alias_bytes b @ image_of bs"
  by (simp add: image_of_def words2raw_alias)

lemma image_of_Nil: "image_of [] = []"
  by (simp add: image_of_def)

lemma image_of_length: "\<forall>b\<in>set bs. length b = 256 \<Longrightarrow> length (image_of bs) = 512 * length bs"
  by (induction bs) (auto simp: image_of_Cons image_of_Nil alias_bytes_length)

lemma image_of_block:
  "\<forall>b\<in>set bs. length b = 256 \<Longrightarrow> k < length bs \<Longrightarrow>
   take 512 (drop (k * 512) (image_of bs)) = alias_bytes (bs ! k)"
proof (induction bs arbitrary: k)
  case Nil
  then show ?case by simp
next
  case (Cons b bs)
  show ?case
  proof (cases k)
    case 0
    with Cons.prems show ?thesis by (simp add: image_of_Cons alias_bytes_length)
  next
    case (Suc j)
    with Cons.prems Cons.IH[of j] show ?thesis by (simp add: image_of_Cons alias_bytes_length)
  qed
qed

lemma getBlocks_image_of:
  assumes "\<forall>b\<in>set bs. length b = 256" "0 \<le> i" "i + 1 \<le> nblocks f" "0 \<le> block0 f + i"
    "nat (block0 f + i) < length bs"
  shows "getBlocks f i 1 (image_of bs) = Inr (bs ! nat (block0 f + i))"
proof -
  let ?k = "nat (block0 f + i)"
  have "block0 f * 512 + i * 512 = (block0 f + i) * 512" by (rule distrib_right[symmetric])
  also have "nat \<dots> = ?k * 512" using assms(4) by (subst nat_mult_distrib) simp_all
  finally have off: "nat (block0 f * 512 + i * 512) = ?k * 512" .
  have len: "?k * 512 + 512 \<le> length (image_of bs)"
    using assms(1,5) by (simp add: image_of_length)
  have blk: "length (bs ! ?k) = 256"
    using assms(1,5) by simp
  show ?thesis
    using assms(2,3,4) len blk image_of_block[OF assms(1) assms(5)]
    by (simp add: getBlocks_def ReadAt_def off raw2words_alias alias_words_bytes alias_bytes_length)
qed

lemma getBlocks_length:
  "getBlocks f start cnt img = Inr ws \<Longrightarrow> length ws = nat cnt * 256"
  by (auto simp: getBlocks_def ReadAt_def raw2words_alias alias_words_length nat_mult_distrib
      split: if_splits)

lemma getBlocks_range:
  "getBlocks f start cnt img = Inr ws \<Longrightarrow>
   0 < cnt \<and> 0 \<le> start \<and> start + cnt \<le> nblocks f \<and> 0 \<le> block0 f + start \<and>
   nat ((block0 f + start) * 512) + nat (cnt * 512) \<le> length img"
  by (auto simp: getBlocks_def ReadAt_def zero_le_mult_iff split: if_splits)

lemma Reading_numeral:
  "Reading cb f index ws (numeral k) loc blk st = Reading cb f index ws (Suc (pred_numeral k)) loc blk st"
  by (simp add: numeral_eq_Suc)

lemma scan_from_block:
  "index \<noteq> 0 \<Longrightarrow> getBlocks f index 1 (fst st) = Inr ws \<Longrightarrow> uint (4096 - ws ! 0) \<le> 40 \<Longrightarrow>
   scan_from cb f index st =
     (case Reading cb f index ws (nat (uint (4096 - ws ! 0))) 5 (uint (ws ! 1)) st of
        (Return r, st') \<Rightarrow> Some (r, st')
      | (NextBlock, st') \<Rightarrow> scan_from cb f (uint (ws ! 2)) st')"
  by (subst scan_from.simps) (simp add: Let_def)

lemma scan_from_end: "scan_from cb f 0 st = Some (None, st)"
  by (subst scan_from.simps) simp


lemma fs4_simps: "block0 fs4 = 0" "nblocks fs4 = 4" "fd fs4 = \<lparr>fd_name = ''/os8.img'', fd_rdwr = True\<rparr>"
  by (simp_all add: fs4_def)

lemma fs2_simps: "block0 fs2 = 0" "nblocks fs2 = 2" "fd fs2 = \<lparr>fd_name = ''/os8.img'', fd_rdwr = True\<rparr>"
  by (simp_all add: fs2_def)

lemma loop_dir_read: "getBlocks fs2 1 1 loop_img = Inr loop_dir"
  unfolding loop_img_def
  by (subst getBlocks_image_of) (simp_all add: fs2_simps block_of_length loop_dir_def)

lemma loop_dir_words: "loop_dir = 4095 # 2 # 1 # 0 # 0 # 0 # 4095 # replicate 249 0"
  by (simp add: loop_dir_def block_of_def)

lemma loop_dir_header:
  "uint (4096 - loop_dir ! 0) = 1" "uint (loop_dir ! Suc 0) = 2" "uint (loop_dir ! 2) = 1"
  by (simp_all add: loop_dir_words)

lemma loop_dir_Reading:
  "Reading List_cb fs2 1 loop_dir (Suc 0) 5 2 (loop_img, []) = (NextBlock, (loop_img, []))"
  by (simp add: loop_dir_words List_cb_def)


lemma two_files_dir_read: "getBlocks fs4 1 1 two_files_img = Inr two_files_dir"
  unfolding two_files_img_def
  by (subst getBlocks_image_of) (simp_all add: fs4_simps block_of_length two_files_dir_def)

lemma two_files_dir_words:
  "two_files_dir = 4094 # 2 # 0 # 0 # 0 # 897 # 837 # 0 # 463 # 0 # 4095 # 66 # 0 # 0 # 0 # 0 # 4095 #
     replicate 239 0"
  by (simp add: two_files_dir_def block_of_def)

lemma two_files_dir_header:
  "uint (4096 - two_files_dir ! 0) = 2" "uint (two_files_dir ! Suc 0) = 2" "uint (two_files_dir ! 2) = 0"
  by (simp_all add: two_files_dir_words)

lemma two_files_dir_entries:
  "length two_files_dir = 256"
  "two_files_dir ! 5 = 897" "two_files_dir ! 11 = 66"
  "entry_at two_files_dir 5 = \<lparr>fe_name = [897, 837, 0, 463], fe_date = 0, fe_len = 4095\<rparr>"
  "entry_at two_files_dir 11 = \<lparr>fe_name = [66, 0, 0, 0], fe_date = 0, fe_len = 4095\<rparr>"
  by (simp_all add: two_files_dir_words entry_at_def)

lemma names: 
  "Name \<lparr>fe_name = [897, 837, 0, 463], fe_date = 0, fe_len = 4095\<rparr> = ''NAME.GO''"
  "Name \<lparr>fe_name = [66, 0, 0, 0], fe_date = 0, fe_len = 4095\<rparr> = ''AB''"
  by code_simp+

lemma two_files_trace:
  "scan (Trace_cb (\<lambda>sd. None)) fs4 (two_files_img, []) =
     Some (None, (two_files_img,
       [\<lparr>sd_index = 1, sd_loc = 5, sd_block0 = 2, sd_size = 1, sd_words = two_files_dir,
          sd_file = Some \<lparr>fe_name = [897, 837, 0, 463], fe_date = 0, fe_len = 4095\<rparr>\<rparr>,
        \<lparr>sd_index = 1, sd_loc = 11, sd_block0 = 3, sd_size = 1, sd_words = two_files_dir,
          sd_file = Some \<lparr>fe_name = [66, 0, 0, 0], fe_date = 0, fe_len = 4095\<rparr>\<rparr>]))"
  unfolding scan_def
  apply (subst scan_from_block[where ws = two_files_dir])
     apply (simp_all add: two_files_dir_read two_files_dir_header)
  apply (simp add: Reading_numeral two_files_dir_entries two_files_dir_header Trace_cb_def Len_def fs4_simps scan_from_end)
  done


lemma big_free_dir_read: "getBlocks fs2 1 1 big_free_img = Inr big_free_dir"
  unfolding big_free_img_def
  by (subst getBlocks_image_of) (simp_all add: fs2_simps block_of_length big_free_dir_def)

lemma big_free_dir_words: "big_free_dir = 4095 # 2 # 0 # 0 # 0 # 0 # 3996 # replicate 249 0"
  by (simp add: big_free_dir_def block_of_def)

lemma big_free_dir_header:
  "uint (4096 - big_free_dir ! 0) = 1" "uint (big_free_dir ! Suc 0) = 2" "uint (big_free_dir ! 2) = 0"
  by (simp_all add: big_free_dir_words)

lemma big_free_dir_entries:
  "length big_free_dir = 256" "big_free_dir ! 5 = 0" "uint (4096 - big_free_dir ! 6) = 100"
  by (simp_all add: big_free_dir_words)

lemma twins_dir_words:
  "twins_dir = 4094 # 2 # 0 # 0 # 0 # 897 # 837 # 0 # 463 # 0 # 4095 # 897 # 837 # 0 # 463 # 0 # 4095 #
     replicate 239 0"
  by (simp add: twins_dir_def block_of_def)

lemma twins_dir_entries:
  "length twins_dir = 256"
  "twins_dir ! 5 = 897" "twins_dir ! 11 = 897"
  "entry_at twins_dir 5 = \<lparr>fe_name = [897, 837, 0, 463], fe_date = 0, fe_len = 4095\<rparr>"
  "entry_at twins_dir 11 = \<lparr>fe_name = [897, 837, 0, 463], fe_date = 0, fe_len = 4095\<rparr>"
  by (simp_all add: twins_dir_words entry_at_def)

lemma twins_after_dir_read: "getBlocks fs4 1 1 twins_after_img = Inr twins_after_dir"
  unfolding twins_after_img_def
  by (subst getBlocks_image_of) (simp_all add: fs4_simps block_of_length twins_after_dir_def)

lemma twins_after_dir_words:
  "twins_after_dir = 4094 # 2 # 0 # 0 # 0 # 0 # 4095 # 897 # 837 # 0 # 463 # 0 # 4095 # replicate 243 0"
  by (simp add: twins_after_dir_def block_of_def)

lemma twins_after_dir_header:
  "uint (4096 - twins_after_dir ! 0) = 2" "uint (twins_after_dir ! Suc 0) = 2" "uint (twins_after_dir ! 2) = 0"
  by (simp_all add: twins_after_dir_words)

lemma twins_after_dir_entries:
  "length twins_after_dir = 256"
  "twins_after_dir ! 5 = 0" "uint (4096 - twins_after_dir ! 6) = 1" "twins_after_dir ! 7 = 897"
  "entry_at twins_after_dir 7 = \<lparr>fe_name = [897, 837, 0, 463], fe_date = 0, fe_len = 4095\<rparr>"
  by (simp_all add: twins_after_dir_words entry_at_def)

section \<open>Termination of the scan\<close>

lemma Reading_keeps_image:
  assumes cb: "\<forall>sd st. fst (cb sd st) \<in> {None, Some skipBlock} \<longrightarrow> fst (snd (cb sd st)) = fst st"
  shows "Reading cb f index ws k loc blk st = (NextBlock, st') \<Longrightarrow> fst st' = fst st"
proof (induction k arbitrary: loc blk st)
  case 0
  then show ?case by simp
next
  case (Suc k)
  let ?free = "\<lparr>sd_index = index, sd_loc = loc, sd_block0 = blk,
                 sd_size = uint (4096 - ws ! nat (loc + 1)), sd_words = ws, sd_file = None\<rparr>"
  let ?file = "\<lparr>sd_index = index, sd_loc = loc, sd_block0 = blk,
                 sd_size = Len (entry_at ws loc), sd_words = ws, sd_file = Some (entry_at ws loc)\<rparr>"
  from Suc.prems show ?case
  proof (simp add: Let_def split: if_splits prod.splits option.splits)
    fix st1
    assume c: "cb ?free st = (None, st1)" and r: "Reading cb f index ws k (loc + 2) (blk + uint (4096 - ws ! nat (loc + 1))) st1 = (NextBlock, st')"
    from cb[rule_format, of ?free st] c have "fst st1 = fst st" by simp
    with Suc.IH[OF r] show "fst st' = fst st" by simp
  next
    assume c: "cb ?free st = (Some skipBlock, st')"
    from cb[rule_format, of ?free st] c show "fst st' = fst st" by simp
  next
    fix st1
    assume c: "cb ?file st = (None, st1)" and r: "Reading cb f index ws k (loc + 6) (blk + Len (entry_at ws loc)) st1 = (NextBlock, st')"
    from cb[rule_format, of ?file st] c have "fst st1 = fst st" by simp
    with Suc.IH[OF r] show "fst st' = fst st" by simp
  next
    assume c: "cb ?file st = (Some skipBlock, st')"
    from cb[rule_format, of ?file st] c show "fst st' = fst st" by simp
  qed
qed

lemma scan_from_returns:
  assumes cb: "\<forall>sd st. fst (cb sd st) \<in> {None, Some skipBlock} \<longrightarrow> fst (snd (cb sd st)) = fst st"
  shows "chain_ends f (fst st) n index \<Longrightarrow> \<exists>r. scan_from cb f index st = Some r"
proof (induction n arbitrary: index st)
  case 0
  then show ?case by (simp add: scan_from_end)
next
  case (Suc n)
  show ?case
  proof (cases "index = 0")
    case True
    then show ?thesis by (simp add: scan_from_end)
  next
    case False
    show ?thesis
    proof (cases "getBlocks f index 1 (fst st)")
      case (Inl e)
      with False show ?thesis by (subst scan_from.simps) simp
    next
      case (Inr ws)
      with Suc.prems False have ends: "chain_ends f (fst st) n (uint (ws ! 2))" by simp
      show ?thesis
      proof (cases "uint (4096 - ws ! 0) \<le> 40")
        case False
        with Inr \<open>index \<noteq> 0\<close> show ?thesis by (subst scan_from.simps) (simp add: Let_def)
      next
        case True
        obtain fl st' where rd: "Reading cb f index ws (nat (uint (4096 - ws ! 0))) 5 (uint (ws ! 1)) st = (fl, st')"
          by (cases "Reading cb f index ws (nat (uint (4096 - ws ! 0))) 5 (uint (ws ! 1)) st")
        show ?thesis
        proof (cases fl)
          case (Return r)
          with rd show ?thesis by (simp add: scan_from_block[OF \<open>index \<noteq> 0\<close> Inr True])
        next
          case NextBlock
          with rd Reading_keeps_image[OF cb] have "fst st' = fst st" by blast
          with ends Suc.IH[of st' "uint (ws ! 2)"] rd NextBlock show ?thesis
            by (simp add: scan_from_block[OF \<open>index \<noteq> 0\<close> Inr True])
        qed
      qed
    qed
  qed
qed


lemma scan_from_self_loop:
  assumes nz: "i \<noteq> 0" and rd: "getBlocks f i 1 (fst st) = Inr ws"
    and nf: "uint (4096 - ws ! 0) \<le> 40"
    and pass: "Reading cb f i ws (nat (uint (4096 - ws ! 0))) 5 (uint (ws ! 1)) st = (NextBlock, st)"
    and self: "uint (ws ! 2) = i"
  shows "scan_from cb f i st = None"
proof (cases "scan_from cb f i st")
  case None
  then show ?thesis .
next
  case (Some y)
  have "\<not> (cb = cb \<and> f = f \<and> i = i \<and> st = st)"
  proof (rule scan_from.raw_induct[where P = "\<lambda>cb' f' i' st' y.
           \<not> (cb' = cb \<and> f' = f \<and> i' = i \<and> st' = st)", OF _ Some], goal_cases)
    case (1 sf cb' f' i' st' r)
    show ?case
    proof
      assume eq: "cb' = cb \<and> f' = f \<and> i' = i \<and> st' = st"
      have "sf cb f i st = Some r"
        using 1(2) eq nz rd nf pass self by (simp add: Let_def del: Reading.simps)
      from 1(1)[OF this] show False by simp
    qed
  qed
  then show ?thesis by simp
qed

text \<open>
  C5, as the code has it. On the two-block image whose directory block names itself
  as next block, listing the directory never returns: \<open>scan\<close> has no bound on the
  blocks it visits and no corrupt-directory exit for a chain that comes back.
\<close>

theorem scan_runs_forever_on_cycle: "scan List_cb fs2 (loop_img, []) = None"
proof (cases "scan_from List_cb fs2 1 (loop_img, [])")
  case None
  then show ?thesis by (simp add: scan_def)
next
  case (Some y)
  have "\<not> (List_cb = List_cb \<and> fs2 = fs2 \<and> (1::int) = 1 \<and>
          (loop_img, []) = (loop_img, ([]::FileInfo list)))"
  proof (rule scan_from.raw_induct[where P = "\<lambda>cb f index st y.
           \<not> (cb = List_cb \<and> f = fs2 \<and> index = 1 \<and> st = (loop_img, []))", OF _ Some])
    fix sf :: "FileInfo list callback \<Rightarrow> FileSystem \<Rightarrow> int \<Rightarrow> byte list \<times> FileInfo list \<Rightarrow>
               (error option \<times> byte list \<times> FileInfo list) option"
      and cb f index st r
    assume IH: "\<And>cb f index st y. sf cb f index st = Some y \<Longrightarrow>
                  \<not> (cb = List_cb \<and> f = fs2 \<and> index = 1 \<and> st = (loop_img, []))"
    assume step: "(if index = 0 then Some (None, st)
      else case getBlocks f index 1 (fst st) of Inl e \<Rightarrow> Some (Some e, st)
           | Inr ws \<Rightarrow>
               let nfiles = uint (4096 - ws ! 0)
               in if 40 < nfiles
                  then Some (Some (TooManyEntries index nfiles), st)
                  else case Reading cb f index ws (nat nfiles) 5
                             (uint (ws ! 1)) st of
                       (Return r, st') \<Rightarrow> Some (r, st')
                       | (NextBlock, st') \<Rightarrow> sf cb f (uint (ws ! 2)) st') = Some r"
    show "\<not> (cb = List_cb \<and> f = fs2 \<and> index = 1 \<and> st = (loop_img, []))"
    proof
      assume eq: "cb = List_cb \<and> f = fs2 \<and> index = 1 \<and> st = (loop_img, [])"
      have "sf List_cb fs2 1 (loop_img, []) = Some r"
        using step eq
        by (simp add: loop_dir_read loop_dir_header loop_dir_Reading del: Reading.simps)
      from IH[OF this] show False by simp
    qed
  qed
  then show ?thesis by simp
qed

text \<open>
  C5, amended. The scan returns on every image whose chain of directory blocks,
  followed from block 1 through the next-block words, reaches 0 or an unreadable block
  within some number \<open>n\<close> of blocks, for every callback that leaves the image as it
  is whenever it lets the scan go on. No number of blocks is capped and no chain is
  refused as corrupt; a chain that comes back to a block is followed for ever.
\<close>

theorem scan_returns_on_ending_chain:
  "(\<forall>sd st. fst (cb sd st) \<in> {None, Some skipBlock} \<longrightarrow> fst (snd (cb sd st)) = fst st) \<Longrightarrow>
   chain_ends f img n 1 \<Longrightarrow> scan cb f (img, s) \<noteq> None"
  using scan_from_returns[of cb f "(img, s)" n 1] by (auto simp: scan_def)

theorem scan_returns_on_ending_chain_witness:
  "scan List_cb fs4 (two_files_img, []) \<noteq> None"
proof -
  have cb: "\<forall>sd st. fst (List_cb sd st) \<in> {None, Some skipBlock} \<longrightarrow> fst (snd (List_cb sd st)) = fst st"
    by (simp add: List_cb_def split: option.splits)
  have ends: "chain_ends fs4 two_files_img (Suc 0) 1"
    by (simp add: two_files_dir_read two_files_dir_header)
  from scan_returns_on_ending_chain[OF cb ends] show ?thesis .
qed

section \<open>The scan within a bound\<close>

lemma scan_n_sound: "scan_n n cb f index st = Some r \<Longrightarrow> scan_from cb f index st = Some r"
proof (induction n arbitrary: index st)
  case 0
  then show ?case by simp
next
  case (Suc n)
  from Suc.prems show ?case
    by (subst scan_from.simps)
       (auto simp: Let_def simp del: Reading.simps split: if_splits sum.splits prod.splits flow.splits
             dest: Suc.IH)
qed

lemma scan_n_complete:
  assumes "scan_from cb f index st = Some r"
  shows "\<exists>n. scan_n n cb f index st = Some r"
proof (rule scan_from.raw_induct[where P = "\<lambda>cb f index st r. \<exists>n. scan_n n cb f index st = Some r",
        OF _ assms], goal_cases)
  case (1 sf cb f index st r)
  note IH = 1(1) and step = 1(2)
  show ?case
  proof (cases "\<exists>ws st'. index \<noteq> 0 \<and> getBlocks f index 1 (fst st) = Inr ws \<and> uint (4096 - ws ! 0) \<le> 40 \<and>
                  Reading cb f index ws (nat (uint (4096 - ws ! 0))) 5 (uint (ws ! 1)) st = (NextBlock, st')")
    case True
    then obtain ws st' where c: "index \<noteq> 0" "getBlocks f index 1 (fst st) = Inr ws"
       "uint (4096 - ws ! 0) \<le> 40"
       "Reading cb f index ws (nat (uint (4096 - ws ! 0))) 5 (uint (ws ! 1)) st = (NextBlock, st')"
      by blast
    with step have "sf cb f (uint (ws ! 2)) st' = Some r"
      by (simp add: Let_def del: Reading.simps)
    from IH[OF this] obtain n where "scan_n n cb f (uint (ws ! 2)) st' = Some r" ..
    with c have "scan_n (Suc n) cb f index st = Some r"
      by (simp add: Let_def del: Reading.simps)
    then show ?thesis ..
  next
    case False
    with step have "scan_n (Suc 0) cb f index st = Some r"
      by (auto simp: Let_def simp del: Reading.simps split: if_splits sum.splits prod.splits flow.splits)
    then show ?thesis ..
  qed
qed

lemma scan_n_Suc: "scan_n n cb f index st = Some r \<Longrightarrow> scan_n (Suc n) cb f index st = Some r"
proof (induction n arbitrary: index st)
  case 0
  then show ?case by simp
next
  case (Suc n)
  note p = Suc.prems[unfolded scan_n.simps(2)]
  show ?case
    apply (subst scan_n.simps(2))
    using p
    apply (auto simp: Let_def simp del: Reading.simps scan_n.simps split: if_splits sum.splits prod.splits flow.splits
             dest: Suc.IH)
    done
qed

lemma scan_n_mono: "scan_n n cb f index st = Some r \<Longrightarrow> n \<le> m \<Longrightarrow> scan_n m cb f index st = Some r"
  by (induction m) (auto simp: le_Suc_eq dest: scan_n_Suc simp del: scan_n.simps)

lemma first_fuel: "P (k::nat) \<Longrightarrow> \<not> P 0 \<Longrightarrow> \<exists>m. \<not> P m \<and> P (Suc m)"
  by (induction k) auto

section \<open>Range check of the scan\<close>

lemma Trace_cb_effect:
  "Trace_cb r sd st = (e, st1) \<Longrightarrow> snd st1 = snd st @ [sd]"
  by (auto simp: Trace_cb_def)

lemma Reading_trace:
  "Reading (Trace_cb r) f index ws k loc blk st = (fl, st') \<Longrightarrow>
   list_all (in_range f) (snd st) \<Longrightarrow> list_all (in_range f) (snd st')"
proof (induction k arbitrary: loc blk st)
  case 0
  then show ?case by simp
next
  case (Suc k)
  let ?free = "\<lparr>sd_index = index, sd_loc = loc, sd_block0 = blk,
                 sd_size = uint (4096 - ws ! nat (loc + 1)), sd_words = ws, sd_file = None\<rparr>"
  let ?file = "\<lparr>sd_index = index, sd_loc = loc, sd_block0 = blk,
                 sd_size = Len (entry_at ws loc), sd_words = ws, sd_file = Some (entry_at ws loc)\<rparr>"
  have "in_range f ?free" by (simp add: in_range_def)
  then have free: "list_all (in_range f) (snd st1)" if "Trace_cb r ?free st = (e, st1)" for e st1
    using Trace_cb_effect[OF that] Suc.prems(2) by simp
  have filecase: "list_all (in_range f) (snd st1)"
    if "Trace_cb r ?file st = (e, st1)" "\<not> nblocks f < blk + Len (entry_at ws loc)" for e st1
  proof -
    from that(2) have "in_range f ?file" by (simp add: in_range_def)
    with Trace_cb_effect[OF that(1)] Suc.prems(2) show ?thesis by simp
  qed
  from Suc.prems(1) show ?case
    using Suc.prems(2) free filecase
    by (auto simp: Let_def split: if_splits option.splits prod.splits dest: Suc.IH)
qed

lemma scan_from_trace:
  assumes "scan_from (Trace_cb r) f index st = Some y"
  shows "Trace_cb r = Trace_cb r \<longrightarrow>
         list_all (in_range f) (snd st) \<longrightarrow> list_all (in_range f) (snd (snd y))"
proof (rule scan_from.raw_induct[where P = "\<lambda>cb f index st y.
         cb = Trace_cb r \<longrightarrow> list_all (in_range f) (snd st) \<longrightarrow> list_all (in_range f) (snd (snd y))",
         OF _ assms])
  fix sf :: "scanData list callback \<Rightarrow> FileSystem \<Rightarrow> int \<Rightarrow> byte list \<times> scanData list \<Rightarrow>
               (error option \<times> byte list \<times> scanData list) option"
    and cb f index st y
  assume IH: "\<And>cb f index st y. sf cb f index st = Some y \<Longrightarrow>
      cb = Trace_cb r \<longrightarrow> list_all (in_range f) (snd st) \<longrightarrow> list_all (in_range f) (snd (snd y))"
  assume step: "(if index = 0 then Some (None, st)
      else case getBlocks f index 1 (fst st) of Inl e \<Rightarrow> Some (Some e, st)
           | Inr ws \<Rightarrow>
               let nfiles = uint (4096 - ws ! 0)
               in if 40 < nfiles
                  then Some (Some (TooManyEntries index nfiles), st)
                  else case Reading cb f index ws (nat nfiles) 5
                             (uint (ws ! 1)) st of
                       (Return r, st') \<Rightarrow> Some (r, st')
                       | (NextBlock, st') \<Rightarrow> sf cb f (uint (ws ! 2)) st') = Some y"
  show "cb = Trace_cb r \<longrightarrow> list_all (in_range f) (snd st) \<longrightarrow> list_all (in_range f) (snd (snd y))"
  proof (intro impI)
    assume cb: "cb = Trace_cb r" and inv: "list_all (in_range f) (snd st)"
    from step cb inv show "list_all (in_range f) (snd (snd y))"
      by (auto simp: Let_def simp del: Reading.simps split: if_splits sum.splits prod.splits flow.splits
             dest: Reading_trace IH)
  qed
qed

text \<open>
  C6, as the code has it. A free extent is passed to the callback without any check:
  in a filesystem of two blocks, the extent of 100 blocks starting at block 2 is
  yielded and the scan returns no error.
\<close>

theorem free_extent_beyond_nblocks_is_yielded:
  "scan (Trace_cb (\<lambda>sd. None)) fs2 (big_free_img, []) =
     Some (None, (big_free_img,
       [\<lparr>sd_index = 1, sd_loc = 5, sd_block0 = 2, sd_size = 100, sd_words = big_free_dir,
          sd_file = None\<rparr>])) \<and>
   nblocks fs2 < 2 + 100"
  unfolding scan_def
  apply (subst scan_from_block[where ws = big_free_dir])
     apply (simp_all add: big_free_dir_read big_free_dir_header)
  apply (simp add: big_free_dir_entries big_free_dir_header Trace_cb_def fs2_simps scan_from_end)
  done

lemma yielded_Nil: "yielded f [] = (NextBlock, [])"
  by (simp add: yielded_def)

lemma yielded_Cons:
  "yielded f (r # rs) =
     (if in_range f r then (fst (yielded f rs), r # snd (yielded f rs))
      else (Return (Some (CorruptDirectory (sd_block0 r + sd_size r))), []))"
  by (simp add: yielded_def Let_def)

lemma entry_locs_length: "length (entry_locs ws k loc) = k"
  by (induction k arbitrary: loc) simp_all

lemma records_Suc:
  "map (record_of index ws blk (entry_locs ws (Suc k) loc)) [0 ..< Suc k] =
     \<lparr>sd_index = index, sd_loc = loc, sd_block0 = blk, sd_size = entry_len ws loc, sd_words = ws,
      sd_file = (if ws ! nat loc = 0 then None else Some (entry_at ws loc))\<rparr> #
     map (record_of index ws (blk + entry_len ws loc)
            (entry_locs ws k (loc + (if ws ! nat loc = 0 then 2 else 6)))) [0 ..< k]"
proof -
  let ?locs = "entry_locs ws k (loc + (if ws ! nat loc = 0 then 2 else 6))"
  have shift: "record_of index ws blk (loc # ?locs) (Suc j) =
               record_of index ws (blk + entry_len ws loc) ?locs j" for j
    by (simp add: record_of_def)
  have first: "record_of index ws blk (loc # ?locs) 0 =
     \<lparr>sd_index = index, sd_loc = loc, sd_block0 = blk, sd_size = entry_len ws loc, sd_words = ws,
      sd_file = (if ws ! nat loc = 0 then None else Some (entry_at ws loc))\<rparr>"
    by (simp add: record_of_def)
  have "map (record_of index ws blk (loc # ?locs)) [0 ..< Suc k] =
        record_of index ws blk (loc # ?locs) 0 #
        map (\<lambda>j. record_of index ws blk (loc # ?locs) (Suc j)) [0 ..< k]"
    by (rule map_upt_Suc)
  then show ?thesis
    by (simp only: entry_locs.simps shift first)
qed

lemma Reading_walk:
  "0 \<le> loc \<Longrightarrow> loc + 6 * int k \<le> int (length ws) \<Longrightarrow>
   Reading (Trace_cb (\<lambda>sd. None)) f index ws k loc blk (img, tr0) =
     (fst (yielded f (map (record_of index ws blk (entry_locs ws k loc)) [0 ..< k])),
      (img, tr0 @ snd (yielded f (map (record_of index ws blk (entry_locs ws k loc)) [0 ..< k]))))"
proof (induction k arbitrary: loc blk tr0)
  case 0
  then show ?case by (simp add: yielded_Nil)
next
  case (Suc k)
  let ?w = "if ws ! nat loc = 0 then 2 else (6::int)"
  have ih: "Reading (Trace_cb (\<lambda>sd. None)) f index ws k (loc + ?w) b (img, t) =
     (fst (yielded f (map (record_of index ws b (entry_locs ws k (loc + ?w))) [0 ..< k])),
      (img, t @ snd (yielded f (map (record_of index ws b (entry_locs ws k (loc + ?w))) [0 ..< k]))))"
    for b t
    using Suc.prems by (intro Suc.IH) auto
  have bounds: "loc < int (length ws)" "loc + 1 < int (length ws)" "loc + 6 \<le> int (length ws)"
    using Suc.prems by simp_all
  show ?case
  proof (cases "ws ! nat loc = 0")
    case True
    with ih[of "blk + uint (4096 - ws ! nat (loc + 1))", unfolded Trace_cb_def] bounds Suc.prems(1)
    show ?thesis
      by (simp add: records_Suc yielded_Cons in_range_def entry_len_def Trace_cb_def Let_def
            del: entry_locs.simps upt_Suc)
  next
    case False
    with ih[of "blk + Len (entry_at ws loc)", unfolded Trace_cb_def] bounds Suc.prems(1)
    show ?thesis
      by (simp add: records_Suc yielded_Cons in_range_def entry_len_def Trace_cb_def Let_def
            del: entry_locs.simps upt_Suc)
  qed
qed

lemma Reading_block_walk:
  assumes "length ws = 256" "uint (4096 - ws ! 0) \<le> 40"
  shows "Reading (Trace_cb (\<lambda>sd. None)) f index ws (nat (uint (4096 - ws ! 0))) 5 (uint (ws ! 1)) (img, tr0) =
     (fst (yielded f (records_of index ws)), (img, tr0 @ snd (yielded f (records_of index ws))))"
  unfolding records_of_def
  using assms by (intro Reading_walk) simp_all

lemma scan_n_walk:
  "scan_n n (Trace_cb (\<lambda>sd. None)) f i (img, tr0) =
     map_option (\<lambda>(e, l). (e, (img, tr0 @ l))) (walk_n n f img i)"
proof (induction n arbitrary: i tr0)
  case 0
  then show ?case by simp
next
  case (Suc n)
  show ?case
  proof (cases "i = 0")
    case True
    then show ?thesis by simp
  next
    case nz: False
    show ?thesis
    proof (cases "getBlocks f i 1 img")
      case (Inl e)
      with nz show ?thesis by simp
    next
      case (Inr ws)
      have len: "length ws = 256" using getBlocks_length[OF Inr] by simp
      show ?thesis
      proof (cases "uint (4096 - ws ! 0) \<le> 40")
        case False
        with nz Inr show ?thesis by (simp add: Let_def del: Reading.simps)
      next
        case True
        obtain fl ys where y: "yielded f (records_of i ws) = (fl, ys)"
          by (cases "yielded f (records_of i ws)")
        note rd = Reading_block_walk[OF len True, of f i img tr0, unfolded y, simplified]
        show ?thesis
        proof (cases fl)
          case (Return r)
          with nz Inr True rd y show ?thesis by (simp add: Let_def del: Reading.simps)
        next
          case NextBlock
          with nz Inr True rd y Suc.IH[of "uint (ws ! 2)" "tr0 @ ys"] show ?thesis
            by (cases "walk_n n f img (uint (ws ! 2))") (auto simp add: Let_def simp del: Reading.simps)
        qed
      qed
    qed
  qed
qed

lemma scan_walk:
  "scan (Trace_cb (\<lambda>sd. None)) f (img, []) = Some (res, (img', tr)) \<longleftrightarrow>
   img' = img \<and> (\<exists>n. walk_n n f img 1 = Some (res, tr))"
proof
  assume "scan (Trace_cb (\<lambda>sd. None)) f (img, []) = Some (res, (img', tr))"
  then have "scan_from (Trace_cb (\<lambda>sd. None)) f 1 (img, []) = Some (res, (img', tr))"
    by (simp add: scan_def)
  from scan_n_complete[OF this] obtain n
    where "scan_n n (Trace_cb (\<lambda>sd. None)) f 1 (img, []) = Some (res, (img', tr))" ..
  then have "img' = img \<and> walk_n n f img 1 = Some (res, tr)"
    by (auto simp: scan_n_walk)
  then show "img' = img \<and> (\<exists>n. walk_n n f img 1 = Some (res, tr))" by blast
next
  assume "img' = img \<and> (\<exists>n. walk_n n f img 1 = Some (res, tr))"
  then obtain n where i: "img' = img" and w: "walk_n n f img 1 = Some (res, tr)" by blast
  then have "scan_n n (Trace_cb (\<lambda>sd. None)) f 1 (img, []) = Some (res, (img', tr))"
    by (simp add: scan_n_walk)
  from scan_n_sound[OF this] show "scan (Trace_cb (\<lambda>sd. None)) f (img, []) = Some (res, (img', tr))"
    by (simp add: scan_def)
qed

lemma fs3_simps: "block0 fs3 = 0" "nblocks fs3 = 3"
  by (simp_all add: fs3_def)

lemma twins_after_dir_read3: "getBlocks fs3 1 1 twins_after_img = Inr twins_after_dir"
  unfolding twins_after_img_def
  by (subst getBlocks_image_of) (simp_all add: fs3_simps block_of_length twins_after_dir_def)

lemma entry_locs_numeral:
  "entry_locs ws (numeral k) loc = entry_locs ws (Suc (pred_numeral k)) loc"
  by (simp add: numeral_eq_Suc)

lemma twins_after_records:
  "records_of 1 twins_after_dir =
     [\<lparr>sd_index = 1, sd_loc = 5, sd_block0 = 2, sd_size = 1, sd_words = twins_after_dir,
        sd_file = None\<rparr>,
      \<lparr>sd_index = 1, sd_loc = 7, sd_block0 = 3, sd_size = 1, sd_words = twins_after_dir,
        sd_file = Some \<lparr>fe_name = [897, 837, 0, 463], fe_date = 0, fe_len = 4095\<rparr>\<rparr>]"
proof -
  have u: "[0 ..< 2] = [0, Suc 0]" by (simp add: upt_conv_Cons)
  show ?thesis
    by (simp add: records_of_def twins_after_dir_header entry_locs_numeral u record_of_def
          entry_len_def twins_after_dir_entries Len_def)
qed

lemma twins_after_walk:
  "walk_n (Suc 0) fs3 twins_after_img 1 =
     Some (Some (CorruptDirectory 4),
       [\<lparr>sd_index = 1, sd_loc = 5, sd_block0 = 2, sd_size = 1, sd_words = twins_after_dir,
          sd_file = None\<rparr>])"
  by (simp add: twins_after_dir_read3 twins_after_dir_header twins_after_records yielded_Cons
        yielded_Nil in_range_def fs3_simps)

text \<open>
  C6, amended. Every record a scan passes to its callback is in range: a free extent,
  which is not checked, or a file whose blocks end within \<open>nblocks\<close>. And a scan that
  its callback never stops is the walk \<open>walk_n\<close> of the directory chain: in each block
  the records of the entries in order, each with the cursor that is the header's first
  data block plus the lengths of the entries before it, free extents included, up to
  the first file whose blocks would end beyond \<open>nblocks\<close>; there the scan returns the
  corrupt-directory error and passes neither that entry nor a later one.
\<close>

theorem scan_checks_file_entries:
  "(scan (Trace_cb r) f (img, []) = Some (res, (img', tr)) \<longrightarrow> list_all (in_range f) tr) \<and>
   (scan (Trace_cb (\<lambda>sd. None)) f (img, []) = Some (res, (img', tr)) \<longleftrightarrow>
      img' = img \<and> (\<exists>n. walk_n n f img 1 = Some (res, tr)))"
  using scan_from_trace[of r f 1 "(img, [])" "(res, (img', tr))"] scan_walk[of f img res img' tr]
  by (simp add: scan_def)

theorem scan_checks_file_entries_witness:
  "scan (Trace_cb (\<lambda>sd. None)) fs3 (twins_after_img, []) =
     Some (Some (CorruptDirectory 4), (twins_after_img,
       [\<lparr>sd_index = 1, sd_loc = 5, sd_block0 = 2, sd_size = 1, sd_words = twins_after_dir,
          sd_file = None\<rparr>])) \<and>
   list_all (in_range fs4)
     [\<lparr>sd_index = 1, sd_loc = 5, sd_block0 = 2, sd_size = 1, sd_words = two_files_dir,
        sd_file = Some \<lparr>fe_name = [897, 837, 0, 463], fe_date = 0, fe_len = 4095\<rparr>\<rparr>,
      \<lparr>sd_index = 1, sd_loc = 11, sd_block0 = 3, sd_size = 1, sd_words = two_files_dir,
        sd_file = Some \<lparr>fe_name = [66, 0, 0, 0], fe_date = 0, fe_len = 4095\<rparr>\<rparr>]"
proof -
  have w: "twins_after_img = twins_after_img \<and>
      (\<exists>n. walk_n n fs3 twins_after_img 1 =
         Some (Some (CorruptDirectory 4),
           [\<lparr>sd_index = 1, sd_loc = 5, sd_block0 = 2, sd_size = 1, sd_words = twins_after_dir,
              sd_file = None\<rparr>]))"
    using twins_after_walk by blast
  note w1 = scan_checks_file_entries[where f = fs3 and img = twins_after_img and img' = twins_after_img,
      THEN conjunct2, THEN iffD2, OF w]
  note w2 = scan_checks_file_entries[where f = fs4 and r = "\<lambda>sd. None" and img = two_files_img,
      THEN conjunct1, rule_format, OF two_files_trace]
  from w1 w2 show ?thesis by simp
qed


section \<open>Side selection\<close>

text \<open>
  C8, at the failing input. On a disk of two sides the prefix \<open>C:\<close> gives \<open>n = 2\<close>; the
  test \<open>n > len(d.sides)\<close> lets it through and \<open>d.sides[2]\<close> panics, in \<open>File\<close> and in
  \<open>Remove\<close>. From \<open>D:\<close> on the side is refused with the side-not-found error.
\<close>

theorem side_equal_to_count_panics:
  "\<forall>MapUpper.
     Disk_File (\<lambda>s. None) MapUpper rk05_disk ''C:X'' [] = Some (Inl RuntimePanic) \<and>
     Disk_Remove MapUpper rk05_disk ''C:X'' [] = Some (Some RuntimePanic, []) \<and>
     Disk_File (\<lambda>s. None) MapUpper rk05_disk ''D:X'' [] = Some (Inl (SideNotFound ''D:X'')) \<and>
     Disk_Remove MapUpper rk05_disk ''D:X'' [] = Some (Some (SideNotFound ''D:X''), [])"
  by (simp add: Disk_File_def Disk_Remove_def getFS_def rk05_disk_def)

section \<open>Opening an image\<close>

text \<open>
  C7, at the failing input. With the RK05 geometry a file of 1,662,976 bytes is not
  opened with one side: the loop \<open>for d.Bytes*d.Sides < size\<close> does not run, \<open>Sides\<close>
  stays 2 and reading 3,325,952 bytes ends in an unexpected end of file. A file of
  3,325,952 bytes opens with two sides.
\<close>

theorem RK05_single_side_image_is_refused:
  "OpenImage [] Some [''/os8.rk05'' \<mapsto> replicate 1662976 0] RK05 ''/os8.rk05'' True Map.empty
     = Some (Inl ErrUnexpectedEOF, Map.empty) \<and>
   map_option (map_sum id (\<lambda>d. (Sides (d_drive d), length (sides d))) \<circ> fst)
     (OpenImage [] Some [''/os8.rk05'' \<mapsto> replicate 3325952 0] RK05 ''/os8.rk05'' True Map.empty)
     = Some (Inr (2, 2))"
proof -
  have c1: "count_sides 1662976 2 1662976 = Some 2"
    by (subst count_sides.simps) (simp add: int64_def)
  have c2: "count_sides 1662976 2 3325952 = Some 2"
    by (subst count_sides.simps) (simp add: int64_def)
  show ?thesis
    by (simp add: OpenImage_def RK05_def c1 c2 Let_def int64_def make_panics_def maxAlloc_def)
qed

text \<open>
  C10. When the absolute form of the path is in the registry, \<open>OpenImage\<close> returns the
  registered handle and leaves the registry as it is, whatever \<open>rw\<close>, the drive and the
  files are. In particular, after a read-only open that registered a handle, a
  read/write open of the same path returns that handle, whose descriptor (shared by
  its sides) is still the read-only one, without looking at the file again.
\<close>

theorem OpenImage_returns_registered_handle:
  "((if path = [] then DefaultImage else path) \<noteq> [] \<and>
    Abs (if path = [] then DefaultImage else path) = Some p \<and> drives p = Some disk \<longrightarrow>
      OpenImage DefaultImage Abs files d path rw drives = Some (Inr disk, drives)) \<and>
   (Abs (if path = [] then DefaultImage else path) = Some p \<and> drives p = None \<and>
    OpenImage DefaultImage Abs files d path False drives = Some (Inr disk, drives') \<longrightarrow>
      \<not> fd_rdwr (d_fd disk) \<and> list_all (\<lambda>fs. \<not> fd_rdwr (fd fs)) (sides disk) \<and>
      OpenImage DefaultImage Abs files' d' path True drives' = Some (Inr disk, drives'))"
proof (intro conjI impI)
  assume "(if path = [] then DefaultImage else path) \<noteq> [] \<and>
    Abs (if path = [] then DefaultImage else path) = Some p \<and> drives p = Some disk"
  then show "OpenImage DefaultImage Abs files d path rw drives = Some (Inr disk, drives)"
    by (simp add: OpenImage_def Let_def)
next
  assume a: "Abs (if path = [] then DefaultImage else path) = Some p \<and> drives p = None \<and>
    OpenImage DefaultImage Abs files d path False drives = Some (Inr disk, drives')"
  then have opened: "drives' = drives(p \<mapsto> disk) \<and> d_fd disk = \<lparr>fd_name = p, fd_rdwr = False\<rparr> \<and>
     list_all (\<lambda>fs. fd fs = \<lparr>fd_name = p, fd_rdwr = False\<rparr>) (sides disk) \<and>
     (if path = [] then DefaultImage else path) \<noteq> []"
    by (auto simp: OpenImage_def Let_def list_all_iff split: if_splits option.splits)
  then show "\<not> fd_rdwr (d_fd disk)" by simp
  from opened show "list_all (\<lambda>fs. \<not> fd_rdwr (fd fs)) (sides disk)"
    by (auto simp: list_all_iff)
  from a opened show "OpenImage DefaultImage Abs files' d' path True drives' = Some (Inr disk, drives')"
    by (simp add: OpenImage_def Let_def)
qed

theorem OpenImage_returns_registered_handle_witness:
  "OpenImage [] Some Map.empty RK05 ''/a'' True [''/a'' \<mapsto> generic_disk] =
     Some (Inr generic_disk, [''/a'' \<mapsto> generic_disk]) \<and>
   \<not> fd_rdwr (d_fd generic_disk)"
proof -
  have c: "count_sides 1024 1 1024 = Some 1"
    by (subst count_sides.simps) (simp add: int64_def)
  have first: "OpenImage [] Some [''/a'' \<mapsto> replicate 1024 0] Generic ''/a'' False Map.empty =
      Some (Inr generic_disk, [''/a'' \<mapsto> generic_disk])"
    by (simp add: OpenImage_def Generic_def generic_disk_def quot_def c Let_def int64_def
          make_panics_def maxAlloc_def)
  have h1: "(if ''/a'' = [] then [] else ''/a'') \<noteq> [] \<and>
      Some (if ''/a'' = [] then [] else ''/a'') = Some ''/a'' \<and>
      [''/a'' \<mapsto> generic_disk] ''/a'' = Some generic_disk"
    by simp
  have h2: "Some (if ''/a'' = [] then [] else ''/a'') = Some ''/a'' \<and>
      (Map.empty :: string \<rightharpoonup> Disk) ''/a'' = None \<and>
      OpenImage [] Some [''/a'' \<mapsto> replicate 1024 0] Generic ''/a'' False Map.empty =
        Some (Inr generic_disk, [''/a'' \<mapsto> generic_disk])"
    using first by simp
  note w1 = OpenImage_returns_registered_handle[where path = "''/a''" and DefaultImage = "[]"
      and Abs = Some and p = "''/a''" and drives = "[''/a'' \<mapsto> generic_disk]" and disk = generic_disk
      and files = Map.empty and d = RK05 and rw = True, THEN conjunct1, rule_format, OF h1]
  note w2 = OpenImage_returns_registered_handle[where path = "''/a''" and DefaultImage = "[]"
      and Abs = Some and p = "''/a''" and drives = Map.empty and disk = generic_disk
      and files = "[''/a'' \<mapsto> replicate 1024 0]" and d = Generic
      and drives' = "[''/a'' \<mapsto> generic_disk]", THEN conjunct2, rule_format, OF h2]
  from w1 w2 show ?thesis by simp
qed

section \<open>Removing a file\<close>

lemma go_copy_collapsed:
  assumes "loc + 6 \<le> length ws" "4 \<le> length ws"
  shows "go_copy (ws[loc := 0, Suc loc := v]) (Suc (Suc loc)) (drop (loc + 6) ws)
         = take loc ws @ [0, v] @ drop (loc + 6) ws @ drop (length ws - 4) ws"
proof -
  let ?u = "ws[loc := 0, Suc loc := v]"
  have n: "min (length ?u - Suc (Suc loc)) (length (drop (loc + 6) ws)) = length ws - (loc + 6)"
    using assms by simp
  have pre: "take (Suc (Suc loc)) ?u = take loc ws @ [0, v]"
    using assms by (simp add: list_eq_iff_nth_eq nth_append nth_list_update less_Suc_eq)
  have post: "drop (Suc (Suc loc) + (length ws - (loc + 6))) ?u = drop (length ws - 4) ws"
  proof -
    have "Suc (Suc loc) + (length ws - (loc + 6)) = length ws - 4" using assms by simp
    then show ?thesis using assms by (simp add: drop_update_cancel)
  qed
  show ?thesis
    unfolding go_copy_def Let_def n pre post by simp
qed

lemma Remove_cb_match:
  assumes "sd_file sd = Some e" "Name e = name" "0 \<le> sd_loc sd" "sd_loc sd + 6 \<le> int (length (sd_words sd))"
    "sd_size sd = Len e"
  shows "Remove_cb f name sd (img, found, werr) =
     (Some stopReading,
      (snd (writeBlocks f (sd_index sd) (collapsed (sd_words sd) (nat (sd_loc sd)) (sd_size sd)) img), True,
       fst (writeBlocks f (sd_index sd) (collapsed (sd_words sd) (nat (sd_loc sd)) (sd_size sd)) img)))"
proof -
  have s: "nat (sd_loc sd + 1) = Suc (nat (sd_loc sd))" "nat (sd_loc sd + 2) = nat (sd_loc sd) + 2"
    "nat (sd_loc sd + 6) = nat (sd_loc sd) + 6"
    using assms(3) by simp_all
  have l: "nat (sd_loc sd) + 6 \<le> length (sd_words sd)" "4 \<le> length (sd_words sd)"
    using assms(3,4) by simp_all
  show ?thesis
    using assms
    by (simp add: Remove_cb_def Let_def s go_copy_collapsed[OF l] collapsed_def)
qed


lemma Probe_cb_pass:
  "sd_file sd = None \<or> (\<exists>e. sd_file sd = Some e \<and> Name e \<noteq> nm) \<Longrightarrow> Probe_cb nm sd st = (None, st)"
  by (auto simp: Probe_cb_def)

lemma Probe_cb_hit:
  "sd_file sd = Some e \<Longrightarrow> Name e = nm \<Longrightarrow> Probe_cb nm sd st = (Some stopReading, (fst st, Some sd))"
  by (simp add: Probe_cb_def)

lemma Remove_cb_pass:
  "sd_file sd = None \<or> (\<exists>e. sd_file sd = Some e \<and> Name e \<noteq> nm) \<Longrightarrow> Remove_cb f nm sd st = (None, st)"
  by (auto simp: Remove_cb_def)

lemma Remove_cb_hit:
  "entry_record f nm idx ws sd \<Longrightarrow> fst (Remove_cb f nm sd (img, found, werr)) = Some stopReading"
  by (simp add: entry_record_def Remove_cb_match)

lemma Reading_probe:
  "Reading (Probe_cb nm) f idx ws k loc blk (img, None) = (fl, st1) \<Longrightarrow> 0 \<le> loc \<Longrightarrow>
   (snd st1 = None \<longrightarrow> st1 = (img, None) \<and>
      Reading (Remove_cb f nm) f idx ws k loc blk (img, False, None) = (fl, (img, False, None))) \<and>
   (\<forall>sd. snd st1 = Some sd \<longrightarrow> fst st1 = img \<and> fl = Return None \<and> entry_record f nm idx ws sd \<and>
      loc \<le> sd_loc sd \<and>
      Reading (Remove_cb f nm) f idx ws k loc blk (img, False, None) =
        (Return None, snd (Remove_cb f nm sd (img, False, None))))"
proof (induction k arbitrary: loc blk)
  case 0
  then show ?case by auto
next
  case (Suc k)
  let ?free = "\<lparr>sd_index = idx, sd_loc = loc, sd_block0 = blk,
                 sd_size = uint (4096 - ws ! nat (loc + 1)), sd_words = ws, sd_file = None\<rparr>"
  let ?file = "\<lparr>sd_index = idx, sd_loc = loc, sd_block0 = blk,
                 sd_size = Len (entry_at ws loc), sd_words = ws, sd_file = Some (entry_at ws loc)\<rparr>"
  consider (panic1) "int (length ws) \<le> loc"
    | (panic2) "loc < int (length ws)" "ws ! nat loc = 0" "int (length ws) \<le> loc + 1"
    | (panic3) "loc < int (length ws)" "ws ! nat loc \<noteq> 0" "int (length ws) < loc + 6"
    | (free) "loc + 1 < int (length ws)" "ws ! nat loc = 0"
    | (corrupt) "loc + 6 \<le> int (length ws)" "ws ! nat loc \<noteq> 0" "nblocks f < blk + Len (entry_at ws loc)"
    | (hit) "loc + 6 \<le> int (length ws)" "ws ! nat loc \<noteq> 0" "blk + Len (entry_at ws loc) \<le> nblocks f"
        "Name (entry_at ws loc) = nm"
    | (miss) "loc + 6 \<le> int (length ws)" "ws ! nat loc \<noteq> 0" "blk + Len (entry_at ws loc) \<le> nblocks f"
        "Name (entry_at ws loc) \<noteq> nm"
    by linarith
  then show ?case
  proof cases
    case panic1
    with Suc.prems show ?thesis by (auto simp: Let_def)
  next
    case panic2
    with Suc.prems show ?thesis by (auto simp: Let_def)
  next
    case panic3
    with Suc.prems show ?thesis by (auto simp: Let_def)
  next
    case free
    have p: "Probe_cb nm ?free (img, None) = (None, (img, None))"
      by (rule Probe_cb_pass) simp
    have r: "Remove_cb f nm ?free (img, False, None) = (None, (img, False, None))"
      by (rule Remove_cb_pass) simp
    from Suc.prems free p
    have "Reading (Probe_cb nm) f idx ws k (loc + 2) (blk + uint (4096 - ws ! nat (loc + 1))) (img, None) = (fl, st1)"
      by (simp add: Let_def)
    from Suc.IH[OF this] Suc.prems(2) free r show ?thesis
      by (auto simp: Let_def)
  next
    case corrupt
    with Suc.prems show ?thesis by (auto simp: Let_def)
  next
    case hit
    have p: "Probe_cb nm ?file (img, None) = (Some stopReading, (img, Some ?file))"
      using hit by (simp add: Probe_cb_hit)
    have er: "entry_record f nm idx ws ?file"
      using hit Suc.prems(2) by (simp add: entry_record_def)
    obtain e' st' where r: "Remove_cb f nm ?file (img, False, None) = (e', st')"
      by (cases "Remove_cb f nm ?file (img, False, None)")
    with Remove_cb_hit[OF er, of img False None] have e': "e' = Some stopReading" by simp
    from Suc.prems hit p have "fl = Return None" "st1 = (img, Some ?file)"
      by (simp_all add: Let_def)
    with hit er r e' Suc.prems(2) show ?thesis
      by (simp add: Let_def)
  next
    case miss
    have p: "Probe_cb nm ?file (img, None) = (None, (img, None))"
      using miss by (intro Probe_cb_pass) simp
    have r: "Remove_cb f nm ?file (img, False, None) = (None, (img, False, None))"
      using miss by (intro Remove_cb_pass) simp
    from Suc.prems miss p
    have "Reading (Probe_cb nm) f idx ws k (loc + 6) (blk + Len (entry_at ws loc)) (img, None) = (fl, st1)"
      by (simp add: Let_def)
    from Suc.IH[OF this] Suc.prems(2) miss r show ?thesis
      by (auto simp: Let_def)
  qed
qed


lemma scan_from_probe:
  assumes "scan_from (Probe_cb nm) f idx (img, None) = Some y"
  shows "(snd (snd y) = None \<longrightarrow> snd y = (img, None) \<and>
            scan_from (Remove_cb f nm) f idx (img, False, None) = Some (fst y, (img, False, None))) \<and>
         (\<forall>sd. snd (snd y) = Some sd \<longrightarrow> fst (snd y) = img \<and> fst y = None \<and>
            getBlocks f (sd_index sd) 1 img = Inr (sd_words sd) \<and>
            entry_record f nm (sd_index sd) (sd_words sd) sd \<and> 5 \<le> sd_loc sd \<and>
            scan_from (Remove_cb f nm) f idx (img, False, None) =
              Some (None, snd (Remove_cb f nm sd (img, False, None))))"
    (is "?Q f idx y")
proof -
  have "Probe_cb nm = Probe_cb nm \<longrightarrow> (img, None) = (img, None :: scanData option) \<longrightarrow> ?Q f idx y"
  proof (rule scan_from.raw_induct[where P = "\<lambda>cb f idx st y.
           cb = Probe_cb nm \<longrightarrow> st = (img, None) \<longrightarrow> ?Q f idx y", OF _ assms], goal_cases)
    case (1 sf cb f idx st y)
    show ?case
    proof (intro impI)
      assume cb: "cb = Probe_cb nm" and st: "st = (img, None)"
      note step = 1(2)[unfolded cb st]
      note IH = 1(1)[rule_format]
      show "?Q f idx y"
      proof (cases "idx = 0")
        case True
        with step show ?thesis by (auto simp: scan_from_end)
      next
        case nz: False
        show ?thesis
        proof (cases "getBlocks f idx 1 img")
          case (Inl e)
          with step nz have "y = (Some e, (img, None))" by simp
          moreover from Inl nz have "scan_from (Remove_cb f nm) f idx (img, False, None) = Some (Some e, (img, False, None))"
            by (subst scan_from.simps) simp
          ultimately show ?thesis by simp
        next
          case (Inr ws)
          show ?thesis
          proof (cases "uint (4096 - ws ! 0) \<le> 40")
            case False
            with step nz Inr have "y = (Some (TooManyEntries idx (uint (4096 - ws ! 0))), (img, None))"
              by (simp add: Let_def)
            moreover from False Inr nz
            have "scan_from (Remove_cb f nm) f idx (img, False, None) =
                    Some (Some (TooManyEntries idx (uint (4096 - ws ! 0))), (img, False, None))"
              by (subst scan_from.simps) (simp add: Let_def)
            ultimately show ?thesis by simp
          next
            case True
            obtain fl st1 where rd: "Reading (Probe_cb nm) f idx ws (nat (uint (4096 - ws ! 0))) 5 (uint (ws ! 1)) (img, None) = (fl, st1)"
              by (cases "Reading (Probe_cb nm) f idx ws (nat (uint (4096 - ws ! 0))) 5 (uint (ws ! 1)) (img, None)")
            note rp = Reading_probe[OF rd, simplified]
            note rem = scan_from_block[OF nz, of f "(img, False, None)" ws "Remove_cb f nm", simplified, OF Inr True]
            show ?thesis
            proof (cases "snd st1")
              case None
              with rp have st1: "st1 = (img, None)"
                and rr: "Reading (Remove_cb f nm) f idx ws (nat (uint (4096 - ws ! 0))) 5 (uint (ws ! 1)) (img, False, None) = (fl, (img, False, None))"
                by simp_all
              show ?thesis
              proof (cases fl)
                case (Return r)
                with step nz Inr True rd st1 have "y = (r, (img, None))"
                  by (simp add: Let_def del: Reading.simps)
                with rem rr Return show ?thesis by (simp del: Reading.simps)
              next
                case NextBlock
                with step nz Inr True rd st1 have "sf (Probe_cb nm) f (uint (ws ! 2)) (img, None) = Some y"
                  by (simp add: Let_def del: Reading.simps)
                from IH[OF this] have "?Q f (uint (ws ! 2)) y" by simp
                with rem rr NextBlock show ?thesis by (simp del: Reading.simps)
              qed
            next
              case (Some sd)
              with rp have fl: "fl = Return None" and st1: "st1 = (img, Some sd)"
                and er: "entry_record f nm idx ws sd" and loc: "5 \<le> sd_loc sd"
                and rr: "Reading (Remove_cb f nm) f idx ws (nat (uint (4096 - ws ! 0))) 5 (uint (ws ! 1)) (img, False, None) =
                          (Return None, snd (Remove_cb f nm sd (img, False, None)))"
                by (auto simp: prod_eq_iff)
              from step nz Inr True rd fl st1 have y: "y = (None, (img, Some sd))"
                by (simp add: Let_def del: Reading.simps)
              from er have "sd_index sd = idx" "sd_words sd = ws" by (simp_all add: entry_record_def)
              with y er loc Inr rem rr show ?thesis by (simp del: Reading.simps)
            qed
          qed
        qed
      qed
    qed
  qed
  then show ?thesis by simp
qed

lemma writeBlocks_block:
  "length ws = 256 \<Longrightarrow> 0 \<le> start \<Longrightarrow> start + 1 \<le> nblocks f \<Longrightarrow>
   writeBlocks f start ws img = WriteAt (fd f) img (words2raw nativeOrder ws) ((block0 f + start) * 512)"
  by (simp add: writeBlocks_def Let_def)

lemma collapsed_length:
  "loc + 6 \<le> length ws \<Longrightarrow> length (collapsed ws loc sz) = length ws"
  by (simp add: collapsed_def)

lemma collapsed_prefix:
  "i < loc \<Longrightarrow> loc \<le> length ws \<Longrightarrow> collapsed ws loc sz ! i = ws ! i"
  by (simp add: collapsed_def nth_append)


lemma Remove_at_match:
  assumes "scan_from (Probe_cb (ToUpper MapUpper name)) f 1 (img, None) = Some (err, (img0, Some sd))"
  shows "getBlocks f (sd_index sd) 1 img = Inr (sd_words sd)"
    and "entry_record f (ToUpper MapUpper name) (sd_index sd) (sd_words sd) sd"
    and "5 \<le> sd_loc sd" and "sd_loc sd + 6 \<le> 256" and "length (sd_words sd) = 256"
    and "Remove MapUpper f name img =
      Some (WriteAt (fd f) img
             (words2raw nativeOrder (collapsed (sd_words sd) (nat (sd_loc sd)) (sd_size sd)))
             ((block0 f + sd_index sd) * 512))"
proof -
  from scan_from_probe[OF assms]
  have rd: "getBlocks f (sd_index sd) 1 img = Inr (sd_words sd)"
    and er: "entry_record f (ToUpper MapUpper name) (sd_index sd) (sd_words sd) sd"
    and loc: "5 \<le> sd_loc sd"
    and sc: "scan_from (Remove_cb f (ToUpper MapUpper name)) f 1 (img, False, None) =
              Some (None, snd (Remove_cb f (ToUpper MapUpper name) sd (img, False, None)))"
    by simp_all
  have len: "length (sd_words sd) = 256"
    using getBlocks_length[OF rd] by simp
  from er len have fits: "sd_loc sd + 6 \<le> 256"
    and isfile: "sd_file sd = Some (entry_at (sd_words sd) (sd_loc sd))"
    and nm: "Name (entry_at (sd_words sd) (sd_loc sd)) = ToUpper MapUpper name"
    and sz: "sd_size sd = Len (entry_at (sd_words sd) (sd_loc sd))"
    by (simp_all add: entry_record_def)
  let ?ws = "collapsed (sd_words sd) (nat (sd_loc sd)) (sd_size sd)"
  have clen: "length ?ws = 256"
    using fits loc len by (simp add: collapsed_length)
  have cb: "Remove_cb f (ToUpper MapUpper name) sd (img, False, None) =
      (Some stopReading, (snd (writeBlocks f (sd_index sd) ?ws img), True,
                          fst (writeBlocks f (sd_index sd) ?ws img)))"
    using loc fits len by (intro Remove_cb_match[OF isfile nm _ _ sz]) simp_all
  have wr: "writeBlocks f (sd_index sd) ?ws img =
      WriteAt (fd f) img (words2raw nativeOrder ?ws) ((block0 f + sd_index sd) * 512)"
    using getBlocks_range[OF rd] by (intro writeBlocks_block[OF clen]) simp_all
  show "getBlocks f (sd_index sd) 1 img = Inr (sd_words sd)" by (rule rd)
  show "entry_record f (ToUpper MapUpper name) (sd_index sd) (sd_words sd) sd" by (rule er)
  show "5 \<le> sd_loc sd" by (rule loc)
  show "sd_loc sd + 6 \<le> 256" by (rule fits)
  show "length (sd_words sd) = 256" by (rule len)
  from sc have "Remove MapUpper f name img = Some (writeBlocks f (sd_index sd) ?ws img)"
    by (simp add: Remove_def scan_def cb)
  then show "Remove MapUpper f name img = Some (WriteAt (fd f) img (words2raw nativeOrder ?ws) ((block0 f + sd_index sd) * 512))"
    by (simp only: wr)
qed

lemma two_files_probe_hit:
  "scan (Probe_cb ''NAME.GO'') fs4 (two_files_img, None) =
     Some (None, (two_files_img,
       Some \<lparr>sd_index = 1, sd_loc = 5, sd_block0 = 2, sd_size = 1, sd_words = two_files_dir,
          sd_file = Some \<lparr>fe_name = [897, 837, 0, 463], fe_date = 0, fe_len = 4095\<rparr>\<rparr>))"
  unfolding scan_def
  apply (subst scan_from_block[where ws = two_files_dir])
     apply (simp_all add: two_files_dir_read two_files_dir_header)
  apply (simp add: Reading_numeral two_files_dir_entries Probe_cb_def Len_def fs4_simps names)
  done

lemma names_ZZ: "''NAME.GO'' \<noteq> ''ZZ''" "''AB'' \<noteq> ''ZZ''"
  by simp_all

lemma two_files_probe_miss:
  "scan (Probe_cb ''ZZ'') fs4 (two_files_img, None) = Some (None, (two_files_img, None))"
  unfolding scan_def
  apply (subst scan_from_block[where ws = two_files_dir])
     apply (simp_all add: two_files_dir_read two_files_dir_header)
  apply (simp add: Reading_numeral two_files_dir_entries two_files_dir_header Probe_cb_def Len_def
      fs4_simps names scan_from_end)
  done

lemma upper_names: "ToUpper MapUpper ''name.go'' = ''NAME.GO''" "ToUpper MapUpper ''zz'' = ''ZZ''"
  by code_simp+

section \<open>Listing as a function of the directory words\<close>

lemma List_cb_free: "sd_file sd = None \<Longrightarrow> List_cb sd st = (None, st)"
  by (simp add: List_cb_def)

lemma List_cb_file:
  "sd_file sd = Some e \<Longrightarrow>
   List_cb sd (img, acc) = (None, (img, acc @ [\<lparr>fi_Name = Name e, fi_Date = fe_date e,
                                     fi_Size = sd_size sd, fi_Offset = sd_block0 sd\<rparr>]))"
  by (simp add: List_cb_def)

lemma Reading_List_gen:
  "Reading List_cb f i ws k loc blk (img, acc) = (fl, st1) \<Longrightarrow>
   \<exists>ents. st1 = (img, acc @ ents) \<and>
     (\<forall>i' img' acc'. Reading List_cb f i' ws k loc blk (img', acc') = (fl, (img', acc' @ ents)))"
proof (induction k arbitrary: loc blk acc)
  case 0
  then show ?case by auto
next
  case (Suc k)
  consider (panic1) "loc < 0 \<or> int (length ws) \<le> loc"
    | (panic2) "0 \<le> loc" "loc < int (length ws)" "ws ! nat loc = 0" "int (length ws) \<le> loc + 1"
    | (panic3) "0 \<le> loc" "loc < int (length ws)" "ws ! nat loc \<noteq> 0" "int (length ws) < loc + 6"
    | (free) "0 \<le> loc" "loc + 1 < int (length ws)" "ws ! nat loc = 0"
    | (corrupt) "0 \<le> loc" "loc + 6 \<le> int (length ws)" "ws ! nat loc \<noteq> 0" "nblocks f < blk + Len (entry_at ws loc)"
    | (fileent) "0 \<le> loc" "loc + 6 \<le> int (length ws)" "ws ! nat loc \<noteq> 0" "blk + Len (entry_at ws loc) \<le> nblocks f"
    by linarith
  then show ?case
  proof cases
    case panic1
    with Suc.prems show ?thesis by (intro exI[of _ "[]"]) (auto simp: Let_def)
  next
    case panic2
    with Suc.prems show ?thesis by (intro exI[of _ "[]"]) (auto simp: Let_def)
  next
    case panic3
    with Suc.prems show ?thesis by (intro exI[of _ "[]"]) (auto simp: Let_def)
  next
    case free
    with Suc.prems
    have "Reading List_cb f i ws k (loc + 2) (blk + uint (4096 - ws ! nat (loc + 1))) (img, acc) = (fl, st1)"
      by (simp add: Let_def List_cb_free List_cb_file)
    from Suc.IH[OF this] obtain ents where "st1 = (img, acc @ ents)"
      "\<forall>i' img' acc'. Reading List_cb f i' ws k (loc + 2) (blk + uint (4096 - ws ! nat (loc + 1))) (img', acc') = (fl, (img', acc' @ ents))"
      by blast
    with free show ?thesis by (intro exI[of _ ents]) (simp add: Let_def List_cb_free List_cb_file)
  next
    case corrupt
    with Suc.prems show ?thesis by (intro exI[of _ "[]"]) (auto simp: Let_def)
  next
    case fileent
    let ?x = "\<lparr>fi_Name = Name (entry_at ws loc), fi_Date = fe_date (entry_at ws loc),
               fi_Size = Len (entry_at ws loc), fi_Offset = blk\<rparr>"
    from fileent Suc.prems
    have "Reading List_cb f i ws k (loc + 6) (blk + Len (entry_at ws loc)) (img, acc @ [?x]) = (fl, st1)"
      by (simp add: Let_def List_cb_free List_cb_file)
    from Suc.IH[OF this] obtain ents where "st1 = (img, (acc @ [?x]) @ ents)"
      "\<forall>i' img' acc'. Reading List_cb f i' ws k (loc + 6) (blk + Len (entry_at ws loc)) (img', acc') = (fl, (img', acc' @ ents))"
      by blast
    with fileent show ?thesis by (intro exI[of _ "?x # ents"]) (simp add: Let_def List_cb_free List_cb_file)
  qed
qed

lemma Reading_List_cb:
  "Reading List_cb f i ws k loc blk (img, acc) =
     (fst (entries_of f ws k loc blk), (img, acc @ snd (entries_of f ws k loc blk)))"
proof -
  obtain fl st1 where r: "Reading List_cb f 0 ws k loc blk ([], []) = (fl, st1)"
    by (cases "Reading List_cb f 0 ws k loc blk ([], [])")
  from Reading_List_gen[OF r] obtain ents where "st1 = ([], ents)"
    and all: "\<And>i' img' acc'. Reading List_cb f i' ws k loc blk (img', acc') = (fl, (img', acc' @ ents))"
    by auto
  with r have "entries_of f ws k loc blk = (fl, ents)" by (simp add: entries_of_def)
  with all[of i img acc] show ?thesis by simp
qed

lemma entries_of_0: "entries_of f ws 0 loc blk = (NextBlock, [])"
  by (simp add: entries_of_def)

lemma entries_of_Suc:
  "entries_of f ws (Suc k) loc blk =
     (if loc < 0 \<or> int (length ws) \<le> loc then (Return (Some RuntimePanic), [])
      else if ws ! nat loc = 0 then
        (if int (length ws) \<le> loc + 1 then (Return (Some RuntimePanic), [])
         else entries_of f ws k (loc + 2) (blk + uint (4096 - ws ! nat (loc + 1))))
      else if int (length ws) < loc + 6 then (Return (Some RuntimePanic), [])
      else if blk + Len (entry_at ws loc) > nblocks f
        then (Return (Some (CorruptDirectory (blk + Len (entry_at ws loc)))), [])
      else (fst (entries_of f ws k (loc + 6) (blk + Len (entry_at ws loc))),
            \<lparr>fi_Name = Name (entry_at ws loc), fi_Date = fe_date (entry_at ws loc),
              fi_Size = Len (entry_at ws loc), fi_Offset = blk\<rparr> #
            snd (entries_of f ws k (loc + 6) (blk + Len (entry_at ws loc)))))"
  by (subst entries_of_def) (simp add: Let_def List_cb_free List_cb_file Reading_List_cb)

lemma scan_n_List_cb:
  "scan_n n List_cb f i (img, acc) = map_option (\<lambda>(e, l). (e, (img, acc @ l))) (listing_n n f img i)"
proof (induction n arbitrary: i acc)
  case 0
  then show ?case by simp
next
  case (Suc n)
  show ?case
    by (simp add: Let_def Reading_List_cb Suc.IH option.map_comp comp_def split_def
             split: sum.splits prod.splits flow.splits option.splits del: Reading.simps)
qed

section \<open>Listing a collapsed directory block\<close>

lemma uint_negated_count: "uint w \<le> 4096 \<Longrightarrow> uint (4096 - w :: uint16) = 4096 - uint w"
  using uint_sub_lem[of w 4096] by simp

lemma collapsed_at:
  "loc + 6 \<le> length ws \<Longrightarrow> collapsed ws loc sz ! loc = 0"
  "loc + 6 \<le> length ws \<Longrightarrow> collapsed ws loc sz ! Suc loc = word_of_int (4096 - sz)"
  by (simp_all add: collapsed_def nth_append)

lemma collapsed_shift:
  "loc + 2 \<le> i \<Longrightarrow> i + 4 < length ws \<Longrightarrow> loc + 6 \<le> length ws \<Longrightarrow>
   collapsed ws loc sz ! i = ws ! (i + 4)"
  by (auto simp: collapsed_def nth_append numeral_eq_Suc less_Suc_eq_le intro: arg_cong[where f = "nth ws"])

lemma entry_at_nth:
  "0 \<le> loc \<Longrightarrow> loc + 6 \<le> int (length ws) \<Longrightarrow>
   entry_at ws loc = \<lparr>fe_name = [ws ! nat loc, ws ! nat (loc + 1), ws ! nat (loc + 2), ws ! nat (loc + 3)],
                      fe_date = ws ! nat (loc + 4), fe_len = ws ! nat (loc + 5)\<rparr>"
  by (simp add: entry_at_def list_eq_iff_nth_eq less_Suc_eq nat_add_distrib
        numeral_eq_Suc)

lemma entry_at_collapsed_before:
  assumes "0 \<le> loc" "loc + 6 \<le> L" "L + 6 \<le> int (length ws)"
  shows "entry_at (collapsed ws (nat L) sz) loc = entry_at ws loc"
proof -
  have l: "length (collapsed ws (nat L) sz) = length ws"
    using assms by (simp add: collapsed_length)
  have n: "collapsed ws (nat L) sz ! nat (loc + j) = ws ! nat (loc + j)" if "0 \<le> j" "j < 6" for j
    using that assms by (intro collapsed_prefix) simp_all
  from n[of 0] n[of 1] n[of 2] n[of 3] n[of 4] n[of 5] assms l show ?thesis
    by (simp add: entry_at_nth)
qed

lemma entry_at_collapsed_after:
  assumes "0 \<le> L" "L + 6 \<le> loc" "loc + 6 \<le> int (length ws)"
  shows "entry_at (collapsed ws (nat L) sz) (loc - 4) = entry_at ws loc"
proof -
  have l: "length (collapsed ws (nat L) sz) = length ws"
    using assms by (simp add: collapsed_length)
  have n: "collapsed ws (nat L) sz ! nat (loc - 4 + j) = ws ! nat (loc + j)" if "0 \<le> j" "j < 6" for j
  proof -
    have "collapsed ws (nat L) sz ! nat (loc - 4 + j) = ws ! (nat (loc - 4 + j) + 4)"
      using that assms by (intro collapsed_shift) simp_all
    also have "nat (loc - 4 + j) + 4 = nat (loc + j)" using that assms by simp
    finally show ?thesis .
  qed
  from n[of 0] n[of 1] n[of 2] n[of 3] n[of 4] n[of 5] assms l show ?thesis
    by (simp add: entry_at_nth)
qed

lemma entries_of_shifted:
  assumes "0 \<le> L" "L + 6 \<le> int (length ws)"
  shows "L + 6 \<le> loc \<Longrightarrow> loc + 6 * int k \<le> int (length ws) \<Longrightarrow>
         entries_of f (collapsed ws (nat L) sz) k (loc - 4) blk = entries_of f ws k loc blk"
proof (induction k arbitrary: loc blk)
  case 0
  then show ?case by (simp add: entries_of_0)
next
  case (Suc k)
  have l: "length (collapsed ws (nat L) sz) = length ws"
    using assms by (simp add: collapsed_length)
  have fits: "loc + 6 \<le> int (length ws)" using Suc.prems by simp
  have n0: "collapsed ws (nat L) sz ! nat (loc - 4) = ws ! nat loc"
  proof -
    have "collapsed ws (nat L) sz ! nat (loc - 4) = ws ! (nat (loc - 4) + 4)"
      using Suc.prems assms fits by (intro collapsed_shift) simp_all
    also have "nat (loc - 4) + 4 = nat loc" using Suc.prems assms by simp
    finally show ?thesis .
  qed
  have n1: "collapsed ws (nat L) sz ! nat (loc - 3) = ws ! nat (loc + 1)"
  proof -
    have "collapsed ws (nat L) sz ! nat (loc - 3) = ws ! (nat (loc - 3) + 4)"
      using Suc.prems assms fits by (intro collapsed_shift) simp_all
    also have "nat (loc - 3) + 4 = nat (loc + 1)" using Suc.prems assms by simp
    finally show ?thesis .
  qed
  have e: "entry_at (collapsed ws (nat L) sz) (loc - 4) = entry_at ws loc"
    using assms Suc.prems fits by (intro entry_at_collapsed_after) simp_all
  have ih2: "entries_of f (collapsed ws (nat L) sz) k (loc - 2) b = entries_of f ws k (loc + 2) b" for b
    using Suc.IH[of "loc + 2" b] Suc.prems by (simp add: algebra_simps)
  have ih6: "entries_of f (collapsed ws (nat L) sz) k (2 + loc) b = entries_of f ws k (loc + 6) b" for b
    using Suc.IH[of "loc + 6" b] Suc.prems by (simp add: algebra_simps)
  show ?case
    using Suc.prems assms fits
    by (simp add: entries_of_Suc l n0 n1 e ih2 ih6)
qed

lemma Reading_probe_pass:
  "Reading (Probe_cb nm) f idx ws k loc blk (img, None) = (fl, st1) \<Longrightarrow> snd st1 = None \<Longrightarrow>
   fst (entries_of f ws k loc blk) = fl \<and> (\<forall>x\<in>set (snd (entries_of f ws k loc blk)). fi_Name x \<noteq> nm)"
proof (induction k arbitrary: loc blk)
  case 0
  then show ?case by (auto simp: entries_of_0)
next
  case (Suc k)
  let ?free = "\<lparr>sd_index = idx, sd_loc = loc, sd_block0 = blk,
                 sd_size = uint (4096 - ws ! nat (loc + 1)), sd_words = ws, sd_file = None\<rparr>"
  let ?file = "\<lparr>sd_index = idx, sd_loc = loc, sd_block0 = blk,
                 sd_size = Len (entry_at ws loc), sd_words = ws, sd_file = Some (entry_at ws loc)\<rparr>"
  consider (panic1) "loc < 0 \<or> int (length ws) \<le> loc"
    | (panic2) "0 \<le> loc" "loc < int (length ws)" "ws ! nat loc = 0" "int (length ws) \<le> loc + 1"
    | (panic3) "0 \<le> loc" "loc < int (length ws)" "ws ! nat loc \<noteq> 0" "int (length ws) < loc + 6"
    | (free) "0 \<le> loc" "loc + 1 < int (length ws)" "ws ! nat loc = 0"
    | (corrupt) "0 \<le> loc" "loc + 6 \<le> int (length ws)" "ws ! nat loc \<noteq> 0" "nblocks f < blk + Len (entry_at ws loc)"
    | (hit) "0 \<le> loc" "loc + 6 \<le> int (length ws)" "ws ! nat loc \<noteq> 0" "blk + Len (entry_at ws loc) \<le> nblocks f"
        "Name (entry_at ws loc) = nm"
    | (miss) "0 \<le> loc" "loc + 6 \<le> int (length ws)" "ws ! nat loc \<noteq> 0" "blk + Len (entry_at ws loc) \<le> nblocks f"
        "Name (entry_at ws loc) \<noteq> nm"
    by linarith
  then show ?case
  proof cases
    case panic1
    with Suc.prems show ?thesis by (auto simp: Let_def entries_of_Suc)
  next
    case panic2
    with Suc.prems show ?thesis by (auto simp: Let_def entries_of_Suc)
  next
    case panic3
    with Suc.prems show ?thesis by (auto simp: Let_def entries_of_Suc)
  next
    case free
    have p: "Probe_cb nm ?free (img, None) = (None, (img, None))"
      by (rule Probe_cb_pass) simp
    from Suc.prems free p
    have "Reading (Probe_cb nm) f idx ws k (loc + 2) (blk + uint (4096 - ws ! nat (loc + 1))) (img, None) = (fl, st1)"
      by (simp add: Let_def)
    from Suc.IH[OF this Suc.prems(2)] free show ?thesis
      by (simp add: entries_of_Suc)
  next
    case corrupt
    with Suc.prems show ?thesis by (auto simp: Let_def entries_of_Suc)
  next
    case hit
    have p: "Probe_cb nm ?file (img, None) = (Some stopReading, (img, Some ?file))"
      using hit by (simp add: Probe_cb_hit)
    from Suc.prems hit p show ?thesis by (auto simp: Let_def)
  next
    case miss
    have p: "Probe_cb nm ?file (img, None) = (None, (img, None))"
      using miss by (intro Probe_cb_pass) simp
    from Suc.prems miss p
    have "Reading (Probe_cb nm) f idx ws k (loc + 6) (blk + Len (entry_at ws loc)) (img, None) = (fl, st1)"
      by (simp add: Let_def)
    from Suc.IH[OF this Suc.prems(2)] miss show ?thesis
      by (simp add: entries_of_Suc)
  qed
qed

lemma without_first_miss: "\<forall>x\<in>set xs. fi_Name x \<noteq> nm \<Longrightarrow> without_first nm (xs @ ys) = xs @ without_first nm ys"
  by (induction xs) auto

lemma without_first_hit: "\<exists>x\<in>set xs. fi_Name x = nm \<Longrightarrow> without_first nm (xs @ ys) = without_first nm xs @ ys"
  by (induction xs) auto

lemma Reading_probe_hit:
  assumes len: "length ws = 256"
  shows "Reading (Probe_cb nm) f idx ws k loc blk (img, None) = (fl, (img1, Some sd)) \<Longrightarrow>
   0 \<le> loc \<Longrightarrow> loc + 6 * int k \<le> 256 \<Longrightarrow>
   (\<exists>x\<in>set (snd (entries_of f ws k loc blk)). fi_Name x = nm \<and> fi_Size x = sd_size sd) \<and>
   (0 \<le> sd_size sd \<longrightarrow>
      entries_of f (collapsed ws (nat (sd_loc sd)) (sd_size sd)) k loc blk =
        (fst (entries_of f ws k loc blk), without_first nm (snd (entries_of f ws k loc blk))))"
proof (induction k arbitrary: loc blk)
  case 0
  then show ?case by simp
next
  case (Suc k)
  let ?free = "\<lparr>sd_index = idx, sd_loc = loc, sd_block0 = blk,
                 sd_size = uint (4096 - ws ! nat (loc + 1)), sd_words = ws, sd_file = None\<rparr>"
  let ?file = "\<lparr>sd_index = idx, sd_loc = loc, sd_block0 = blk,
                 sd_size = Len (entry_at ws loc), sd_words = ws, sd_file = Some (entry_at ws loc)\<rparr>"
  let ?ws' = "collapsed ws (nat (sd_loc sd)) (sd_size sd)"
  have fits: "loc + 6 \<le> 256" using Suc.prems by simp
  note rp = Reading_probe[OF Suc.prems(1) Suc.prems(2), THEN conjunct2, rule_format, of sd, simplified]
  then have er: "entry_record f nm idx ws sd" and le: "loc \<le> sd_loc sd" by simp_all
  from er len have L: "0 \<le> sd_loc sd" "sd_loc sd + 6 \<le> 256"
    by (simp_all add: entry_record_def)
  have l': "length ?ws' = 256"
    using L len by (simp add: collapsed_length)
  consider (free) "ws ! nat loc = 0"
    | (corrupt) "ws ! nat loc \<noteq> 0" "nblocks f < blk + Len (entry_at ws loc)"
    | (hit) "ws ! nat loc \<noteq> 0" "blk + Len (entry_at ws loc) \<le> nblocks f"
        "Name (entry_at ws loc) = nm"
    | (miss) "ws ! nat loc \<noteq> 0" "blk + Len (entry_at ws loc) \<le> nblocks f"
        "Name (entry_at ws loc) \<noteq> nm"
    by linarith
  then show ?case
  proof cases
    case free
    have p: "Probe_cb nm ?free (img, None) = (None, (img, None))"
      by (rule Probe_cb_pass) simp
    from Suc.prems free p fits len
    have rec: "Reading (Probe_cb nm) f idx ws k (loc + 2) (blk + uint (4096 - ws ! nat (loc + 1))) (img, None) = (fl, (img1, Some sd))"
      by (simp add: Let_def)
    from Reading_probe[OF rec, THEN conjunct2, rule_format, of sd] Suc.prems(2)
    have le2: "loc + 2 \<le> sd_loc sd" by simp
    have w0: "?ws' ! nat loc = ws ! nat loc" "?ws' ! nat (loc + 1) = ws ! nat (loc + 1)"
      using le2 L len Suc.prems(2) by (simp_all add: collapsed_prefix)
    from Suc.IH[OF rec] Suc.prems(2,3) free fits len l' w0 show ?thesis
      by (simp add: entries_of_Suc)
  next
    case corrupt
    with Suc.prems fits len show ?thesis by (simp add: Let_def)
  next
    case hit
    have p: "Probe_cb nm ?file (img, None) = (Some stopReading, (img, Some ?file))"
      using hit by (simp add: Probe_cb_hit)
    from Suc.prems hit p fits len have sd: "sd = ?file"
      by (simp add: Let_def)
    then have sl: "sd_loc sd = loc" and ss: "sd_size sd = Len (entry_at ws loc)" by simp_all
    have w0: "?ws' ! nat loc = 0"
      using collapsed_at(1)[of "nat loc" ws "sd_size sd"] sl fits len Suc.prems(2) by simp
    have w1: "?ws' ! nat (loc + 1) = word_of_int (4096 - Len (entry_at ws loc))"
      using collapsed_at(2)[of "nat loc" ws "sd_size sd"] sl ss fits len Suc.prems(2)
      by (simp add: Suc_nat_eq_nat_zadd1 add.commute)
    have lenword: "word_of_int (4096 - Len (entry_at ws loc)) = fe_len (entry_at ws loc)"
      by (simp add: Len_def)
    have shifted: "entries_of f ?ws' k (loc + 2) b = entries_of f ws k (loc + 6) b" for b
      using entries_of_shifted[of "sd_loc sd" ws "loc + 6" k f "sd_size sd" b] sl fits len Suc.prems(2,3)
      by (simp add: algebra_simps)
    show ?thesis
    proof (intro conjI impI)
      show "\<exists>x\<in>set (snd (entries_of f ws (Suc k) loc blk)). fi_Name x = nm \<and> fi_Size x = sd_size sd"
        using hit fits len Suc.prems(2) ss by (simp add: entries_of_Suc)
    next
      assume nonneg: "0 \<le> sd_size sd"
      then have "uint (fe_len (entry_at ws loc)) \<le> 4096" using ss by (simp add: Len_def)
      then have n: "uint (4096 - fe_len (entry_at ws loc)) = Len (entry_at ws loc)"
        by (simp add: uint_negated_count Len_def)
      show "entries_of f ?ws' (Suc k) loc blk =
        (fst (entries_of f ws (Suc k) loc blk), without_first nm (snd (entries_of f ws (Suc k) loc blk)))"
        using hit fits len l' Suc.prems(2) w0 w1 lenword n shifted
        by (simp add: entries_of_Suc)
    qed
  next
    case miss
    have p: "Probe_cb nm ?file (img, None) = (None, (img, None))"
      using miss by (intro Probe_cb_pass) simp
    from Suc.prems miss p fits len
    have rec: "Reading (Probe_cb nm) f idx ws k (loc + 6) (blk + Len (entry_at ws loc)) (img, None) = (fl, (img1, Some sd))"
      by (simp add: Let_def)
    from Reading_probe[OF rec, THEN conjunct2, rule_format, of sd] Suc.prems(2)
    have le6: "loc + 6 \<le> sd_loc sd" by simp
    have w0: "?ws' ! nat loc = ws ! nat loc"
      using le6 L len Suc.prems(2) by (simp add: collapsed_prefix)
    have e: "entry_at ?ws' loc = entry_at ws loc"
      using le6 L len Suc.prems(2) by (intro entry_at_collapsed_before) simp_all
    from Suc.IH[OF rec] Suc.prems(2,3) miss fits len l' w0 e show ?thesis
      by (simp add: entries_of_Suc)
  qed
qed

section \<open>Listing along the chain after a block was rewritten\<close>

lemma listing_n_Suc: "listing_n n f img i = Some r \<Longrightarrow> listing_n (Suc n) f img i = Some r"
proof (induction n arbitrary: i r)
  case 0
  then show ?case by simp
next
  case (Suc n)
  note p = Suc.prems[unfolded listing_n.simps(2)]
  show ?case
    apply (subst listing_n.simps(2))
    using p
    apply (auto simp del: listing_n.simps split: if_splits sum.splits prod.splits flow.splits
             dest: Suc.IH)
    done
qed

lemma listing_n_mono: "listing_n n f img i = Some r \<Longrightarrow> n \<le> m \<Longrightarrow> listing_n m f img i = Some r"
  by (induction m) (auto simp: le_Suc_eq dest: listing_n_Suc simp del: listing_n.simps)

lemma listing_n_None: "listing_n (Suc n) f img i = None \<Longrightarrow> listing_n n f img i = None"
  using listing_n_Suc[of n f img i] by (cases "listing_n n f img i") auto

lemma listing_elsewhere:
  assumes rw: "rewritten f img img' B ws'"
  shows "listing_n n f img i = Some r \<Longrightarrow> listing_n n f img B = None \<Longrightarrow> listing_n n f img' i = Some r"
proof (induction n arbitrary: i r)
  case 0
  then show ?case by simp
next
  case (Suc n)
  show ?case
  proof (cases "i = 0")
    case True
    with Suc.prems show ?thesis by simp
  next
    case nz: False
    from Suc.prems have nB: "i \<noteq> B" by auto
    with rw have same: "getBlocks f i 1 img' = getBlocks f i 1 img" by (simp add: rewritten_def)
    note none = listing_n_None[OF Suc.prems(2)]
    note p = Suc.prems(1)[unfolded listing_n.simps(2)]
    show ?thesis
      apply (subst listing_n.simps(2))
      using p nz same
      apply (auto simp del: listing_n.simps split: if_splits sum.splits prod.splits flow.splits
             dest: Suc.IH[OF _ none])
      done
  qed
qed

lemma probe_block:
  "scan_n n (Probe_cb nm) f i (img, None) = Some (e, (img1, Some sd)) \<Longrightarrow>
   sd_index sd \<noteq> 0 \<and> getBlocks f (sd_index sd) 1 img = Inr (sd_words sd) \<and>
   uint (4096 - sd_words sd ! 0) \<le> 40 \<and> e = None \<and>
   Reading (Probe_cb nm) f (sd_index sd) (sd_words sd) (nat (uint (4096 - sd_words sd ! 0))) 5
     (uint (sd_words sd ! 1)) (img, None) = (Return None, (img, Some sd))"
proof (induction n arbitrary: i)
  case 0
  then show ?case by simp
next
  case (Suc n)
  from Suc.prems have nz: "i \<noteq> 0" by auto
  from Suc.prems nz obtain ws where rd: "getBlocks f i 1 img = Inr ws"
    by (cases "getBlocks f i 1 img") auto
  from Suc.prems nz rd have nf: "uint (4096 - ws ! 0) \<le> 40"
    by (auto simp: Let_def simp del: Reading.simps split: if_splits)
  obtain fl st1 where r: "Reading (Probe_cb nm) f i ws (nat (uint (4096 - ws ! 0))) 5 (uint (ws ! 1)) (img, None) = (fl, st1)"
    by (cases "Reading (Probe_cb nm) f i ws (nat (uint (4096 - ws ! 0))) 5 (uint (ws ! 1)) (img, None)")
  note rp = Reading_probe[OF r, simplified]
  show ?case
  proof (cases "snd st1")
    case None
    with rp have st1: "st1 = (img, None)" by simp
    show ?thesis
    proof (cases fl)
      case (Return x)
      with Suc.prems nz rd nf r st1 show ?thesis by (simp add: Let_def del: Reading.simps)
    next
      case NextBlock
      with Suc.prems nz rd nf r st1
      have "scan_n n (Probe_cb nm) f (uint (ws ! 2)) (img, None) = Some (e, (img1, Some sd))"
        by (simp add: Let_def del: Reading.simps)
      from Suc.IH[OF this] show ?thesis .
    qed
  next
    case (Some sd')
    with rp have fl: "fl = Return None" and st1: "st1 = (img, Some sd')"
      and er: "entry_record f nm i ws sd'"
      by (auto simp: prod_eq_iff)
    from Suc.prems nz rd nf r fl st1 have "sd' = sd" "e = None"
      by (simp_all add: Let_def del: Reading.simps)
    with er have "sd_index sd = i" "sd_words sd = ws" by (simp_all add: entry_record_def)
    with nz rd nf r fl st1 \<open>sd' = sd\<close> \<open>e = None\<close> show ?thesis by simp
  qed
qed

lemma remove_scan_probe:
  "scan_n n (Remove_cb f nm) f i (img, False, None) = Some z \<Longrightarrow>
   \<exists>y. scan_n n (Probe_cb nm) f i (img, None) = Some y"
proof (induction n arbitrary: i)
  case 0
  then show ?case by simp
next
  case (Suc n)
  show ?case
  proof (cases "\<exists>ws. i \<noteq> 0 \<and> getBlocks f i 1 img = Inr ws \<and> uint (4096 - ws ! 0) \<le> 40 \<and>
      Reading (Probe_cb nm) f i ws (nat (uint (4096 - ws ! 0))) 5 (uint (ws ! 1)) (img, None) = (NextBlock, (img, None))")
    case True
    then obtain ws where c: "i \<noteq> 0" "getBlocks f i 1 img = Inr ws" "uint (4096 - ws ! 0) \<le> 40"
      "Reading (Probe_cb nm) f i ws (nat (uint (4096 - ws ! 0))) 5 (uint (ws ! 1)) (img, None) = (NextBlock, (img, None))"
      by blast
    from Reading_probe[OF c(4), simplified]
    have "Reading (Remove_cb f nm) f i ws (nat (uint (4096 - ws ! 0))) 5 (uint (ws ! 1)) (img, False, None) = (NextBlock, (img, False, None))"
      by simp
    with Suc.prems c have "scan_n n (Remove_cb f nm) f (uint (ws ! 2)) (img, False, None) = Some z"
      by (simp add: Let_def del: Reading.simps)
    from Suc.IH[OF this] c show ?thesis by (simp add: Let_def del: Reading.simps)
  next
    case False
    show ?thesis
    proof (cases "i = 0")
      case True
      then show ?thesis by simp
    next
      case nz: False
      show ?thesis
      proof (cases "getBlocks f i 1 img")
        case (Inl a)
        with nz show ?thesis by simp
      next
        case (Inr ws)
        show ?thesis
        proof (cases "uint (4096 - ws ! 0) \<le> 40")
          case nf: True
          obtain fl st1 where r: "Reading (Probe_cb nm) f i ws (nat (uint (4096 - ws ! 0))) 5 (uint (ws ! 1)) (img, None) = (fl, st1)"
            by (cases "Reading (Probe_cb nm) f i ws (nat (uint (4096 - ws ! 0))) 5 (uint (ws ! 1)) (img, None)")
          note rp = Reading_probe[OF r, simplified]
          have "fl \<noteq> NextBlock"
          proof
            assume nb: "fl = NextBlock"
            with rp have "snd st1 = None" by (cases "snd st1") auto
            with rp have "st1 = (img, None)" by simp
            with False nz Inr nf r nb show False by simp
          qed
          then obtain x where "fl = Return x" by (cases fl) auto
          with nz Inr nf r show ?thesis by (simp add: Let_def del: Reading.simps)
        next
          case False
          with nz Inr show ?thesis by (simp add: Let_def del: Reading.simps)
        qed
      qed
    qed
  qed
qed

lemma listing_n_next:
  "i \<noteq> 0 \<Longrightarrow> getBlocks f i 1 img = Inr ws \<Longrightarrow> uint (4096 - ws ! 0) \<le> 40 \<Longrightarrow>
   entries_of f ws (nat (uint (4096 - ws ! 0))) 5 (uint (ws ! 1)) = (NextBlock, es) \<Longrightarrow>
   listing_n (Suc n) f img i = map_option (\<lambda>(e, l). (e, es @ l)) (listing_n n f img (uint (ws ! 2)))"
  by simp

lemma listing_n_return:
  "i \<noteq> 0 \<Longrightarrow> getBlocks f i 1 img = Inr ws \<Longrightarrow> uint (4096 - ws ! 0) \<le> 40 \<Longrightarrow>
   entries_of f ws (nat (uint (4096 - ws ! 0))) 5 (uint (ws ! 1)) = (Return r, es) \<Longrightarrow>
   listing_n (Suc n) f img i = Some (r, es)"
  by simp

declare listing_n.simps(2) [simp del]

lemma listing_at_collapsed_block:
  assumes rw: "rewritten f img img' (sd_index sd) (collapsed (sd_words sd) (nat (sd_loc sd)) (sd_size sd))"
    and pb: "scan_n n (Probe_cb nm) f i0 (img, None) = Some (e0, (img1, Some sd))"
    and lst: "listing_n (Suc m) f img (sd_index sd) = Some (e, ys)"
    and none: "listing_n m f img (sd_index sd) = None"
  shows "(\<exists>x\<in>set ys. fi_Name x = nm \<and> fi_Size x = sd_size sd) \<and>
         (0 \<le> sd_size sd \<longrightarrow> listing_n (Suc m) f img' (sd_index sd) = Some (e, without_first nm ys))"
proof -
  let ?B = "sd_index sd" and ?W = "sd_words sd"
  let ?W' = "collapsed (sd_words sd) (nat (sd_loc sd)) (sd_size sd)"
  let ?k = "nat (uint (4096 - ?W ! 0))"
  from probe_block[OF pb] have nz: "?B \<noteq> 0" and rd: "getBlocks f ?B 1 img = Inr ?W"
    and nf: "uint (4096 - ?W ! 0) \<le> 40"
    and hit: "Reading (Probe_cb nm) f ?B ?W ?k 5 (uint (?W ! 1)) (img, None) = (Return None, (img, Some sd))"
    by simp_all
  have len: "length ?W = 256" using getBlocks_length[OF rd] by simp
  from Reading_probe[OF hit, simplified] have er: "entry_record f nm ?B ?W sd" and loc: "5 \<le> sd_loc sd"
    by simp_all
  from er len have fits: "sd_loc sd + 6 \<le> 256" by (simp add: entry_record_def)
  have inv: "5 + 6 * int ?k \<le> 256" using nf by simp
  note h = Reading_probe_hit[OF len hit _ inv, simplified]
  from rw have rd': "getBlocks f ?B 1 img' = Inr ?W'" by (simp add: rewritten_def)
  have hdr: "?W' ! 0 = ?W ! 0" "?W' ! 1 = ?W ! 1" "?W' ! 2 = ?W ! 2"
    using loc fits len by (simp_all add: collapsed_prefix)
  obtain fl es where E: "entries_of f ?W ?k 5 (uint (?W ! 1)) = (fl, es)"
    by (cases "entries_of f ?W ?k 5 (uint (?W ! 1))")
  from h E have mem: "\<exists>x\<in>set es. fi_Name x = nm \<and> fi_Size x = sd_size sd" by simp
  from h E have E': "0 \<le> sd_size sd \<Longrightarrow> entries_of f ?W' ?k 5 (uint (?W ! 1)) = (fl, without_first nm es)"
    by simp
  have nf': "uint (4096 - ?W' ! 0) \<le> 40" using nf hdr by simp
  show ?thesis
  proof (cases fl)
    case (Return r)
    from lst listing_n_return[OF nz rd nf E[unfolded Return], of m] have eq: "e = r" "ys = es" by simp_all
    show ?thesis
    proof (intro conjI impI)
      from mem eq show "\<exists>x\<in>set ys. fi_Name x = nm \<and> fi_Size x = sd_size sd" by simp
    next
      assume "0 \<le> sd_size sd"
      from E'[OF this] have "entries_of f ?W' (nat (uint (4096 - ?W' ! 0))) 5 (uint (?W' ! 1)) = (Return r, without_first nm es)"
        using hdr Return by simp
      from listing_n_return[OF nz rd' nf' this, of m] eq
      show "listing_n (Suc m) f img' ?B = Some (e, without_first nm ys)" by simp
    qed
  next
    case NextBlock
    from lst listing_n_next[OF nz rd nf E[unfolded NextBlock], of m]
    have "map_option (\<lambda>(e, l). (e, es @ l)) (listing_n m f img (uint (?W ! 2))) = Some (e, ys)"
      by simp
    then obtain l where l: "listing_n m f img (uint (?W ! 2)) = Some (e, l)" and ys: "ys = es @ l"
      by auto
    from listing_elsewhere[OF rw l none] have l': "listing_n m f img' (uint (?W ! 2)) = Some (e, l)" .
    from mem ys have m2: "\<exists>x\<in>set ys. fi_Name x = nm \<and> fi_Size x = sd_size sd" by auto
    from mem have wf: "without_first nm (es @ l) = without_first nm es @ l"
      by (intro without_first_hit) auto
    show ?thesis
    proof (intro conjI impI)
      show "\<exists>x\<in>set ys. fi_Name x = nm \<and> fi_Size x = sd_size sd" by (rule m2)
    next
      assume "0 \<le> sd_size sd"
      from E'[OF this] have "entries_of f ?W' (nat (uint (4096 - ?W' ! 0))) 5 (uint (?W' ! 1)) = (NextBlock, without_first nm es)"
        using hdr NextBlock by simp
      from listing_n_next[OF nz rd' nf' this, of m] l' ys wf hdr
      show "listing_n (Suc m) f img' ?B = Some (e, without_first nm ys)" by simp
    qed
  qed
qed

lemma listing_after_collapse:
  assumes rw: "rewritten f img img' (sd_index sd) (collapsed (sd_words sd) (nat (sd_loc sd)) (sd_size sd))"
    and top: "scan_n n0 (Probe_cb nm) f i0 (img, None) = Some (e0, (img0, Some sd))"
  shows "scan_n n (Probe_cb nm) f i (img, None) = Some (e1, (img1, Some sd)) \<Longrightarrow>
         listing_n k f img i = Some (e, ys) \<Longrightarrow>
         (\<exists>x\<in>set ys. fi_Name x = nm \<and> fi_Size x = sd_size sd) \<and>
         (0 \<le> sd_size sd \<longrightarrow> (\<exists>k'. listing_n k' f img' i = Some (e, without_first nm ys)))"
proof (induction n arbitrary: i k ys)
  case 0
  then show ?case by simp
next
  case (Suc n)
  let ?B = "sd_index sd" and ?W = "sd_words sd"
  from probe_block[OF top] have rdB: "getBlocks f ?B 1 img = Inr ?W"
    and hitB: "Reading (Probe_cb nm) f ?B ?W (nat (uint (4096 - ?W ! 0))) 5 (uint (?W ! 1)) (img, None)
                 = (Return None, (img, Some sd))"
    by simp_all
  from Suc.prems(1) have nz: "i \<noteq> 0" by auto
  from Suc.prems(1) nz obtain ws where rd: "getBlocks f i 1 img = Inr ws"
    by (cases "getBlocks f i 1 img") auto
  from Suc.prems(1) nz rd have nf: "uint (4096 - ws ! 0) \<le> 40"
    by (auto simp: Let_def simp del: Reading.simps split: if_splits)
  obtain fl st1 where r: "Reading (Probe_cb nm) f i ws (nat (uint (4096 - ws ! 0))) 5 (uint (ws ! 1)) (img, None) = (fl, st1)"
    by (cases "Reading (Probe_cb nm) f i ws (nat (uint (4096 - ws ! 0))) 5 (uint (ws ! 1)) (img, None)")
  note rp = Reading_probe[OF r, simplified]
  show ?case
  proof (cases "snd st1")
    case (Some sd')
    with rp have fl: "fl = Return None" and st1: "st1 = (img, Some sd')"
      and er: "entry_record f nm i ws sd'"
      by (auto simp: prod_eq_iff)
    from Suc.prems(1) nz rd nf r fl st1 have "sd' = sd"
      by (simp add: Let_def del: Reading.simps)
    with er have iB: "i = ?B" by (simp add: entry_record_def)
    from Suc.prems(2) have "\<exists>m. \<not> (listing_n m f img i \<noteq> None) \<and> listing_n (Suc m) f img i \<noteq> None"
      by (intro first_fuel[where P = "\<lambda>j. listing_n j f img i \<noteq> None" and k = k]) simp_all
    then obtain m where none: "listing_n m f img i = None" and "listing_n (Suc m) f img i \<noteq> None"
      by blast
    then obtain r' where some: "listing_n (Suc m) f img i = Some r'"
      by blast
    have "r' = (e, ys)"
      using listing_n_mono[OF some, of "max (Suc m) k"] listing_n_mono[OF Suc.prems(2), of "max (Suc m) k"]
      by simp
    with some have some': "listing_n (Suc m) f img ?B = Some (e, ys)" using iB by simp
    from none iB have none': "listing_n m f img ?B = None" by simp
    from listing_at_collapsed_block[OF rw top some' none'] iB show ?thesis by blast
  next
    case None
    with rp have st1: "st1 = (img, None)" by simp
    from Suc.prems(1) nz rd nf r st1 have fl: "fl = NextBlock"
      by (cases fl) (simp_all add: Let_def del: Reading.simps)
    with Suc.prems(1) nz rd nf r st1
    have rec: "scan_n n (Probe_cb nm) f (uint (ws ! 2)) (img, None) = Some (e1, (img1, Some sd))"
      by (simp add: Let_def del: Reading.simps)
    have nB: "i \<noteq> ?B"
    proof
      assume "i = ?B"
      with rd rdB have "ws = ?W" by simp
      with r hitB \<open>i = ?B\<close> st1 show False by simp
    qed
    with rw rd have rd': "getBlocks f i 1 img' = Inr ws" by (simp add: rewritten_def)
    from Reading_probe_pass[OF r] st1 fl
    obtain es where E: "entries_of f ws (nat (uint (4096 - ws ! 0))) 5 (uint (ws ! 1)) = (NextBlock, es)"
      and clean: "\<forall>x\<in>set es. fi_Name x \<noteq> nm"
      by (cases "entries_of f ws (nat (uint (4096 - ws ! 0))) 5 (uint (ws ! 1))") auto
    from Suc.prems(2) obtain k0 where k: "k = Suc k0" by (cases k) auto
    with Suc.prems(2) listing_n_next[OF nz rd nf E, of k0]
    have "map_option (\<lambda>(e, l). (e, es @ l)) (listing_n k0 f img (uint (ws ! 2))) = Some (e, ys)"
      by simp
    then obtain l where l: "listing_n k0 f img (uint (ws ! 2)) = Some (e, l)"
      and ys: "ys = es @ l"
      by auto
    note ih = Suc.IH[OF rec l]
    from clean have wf: "without_first nm (es @ l) = es @ without_first nm l"
      by (rule without_first_miss)
    show ?thesis
    proof (intro conjI impI)
      from ih ys show "\<exists>x\<in>set ys. fi_Name x = nm \<and> fi_Size x = sd_size sd" by auto
    next
      assume "0 \<le> sd_size sd"
      with ih obtain k' where "listing_n k' f img' (uint (ws ! 2)) = Some (e, without_first nm l)"
        by blast
      with listing_n_next[OF nz rd' nf E, of k'] ys wf
      have "listing_n (Suc k') f img' i = Some (e, without_first nm ys)"
        by simp
      then show "\<exists>k'. listing_n k' f img' i = Some (e, without_first nm ys)" ..
    qed
  qed
qed

lemma listing_returns_before:
  assumes rw: "rewritten f img img' (sd_index sd) (collapsed (sd_words sd) (nat (sd_loc sd)) (sd_size sd))"
    and pb: "scan_n n0 (Probe_cb nm) f i0 (img, None) = Some (e0, (img0, Some sd))"
    and sz: "0 \<le> sd_size sd"
  shows "listing_n k f img' i \<noteq> None \<Longrightarrow> listing_n k f img i \<noteq> None"
proof (induction k arbitrary: i)
  case 0
  then show ?case by simp
next
  case (Suc k)
  let ?B = "sd_index sd" and ?W = "sd_words sd"
  let ?W' = "collapsed (sd_words sd) (nat (sd_loc sd)) (sd_size sd)"
  let ?k = "nat (uint (4096 - ?W ! 0))"
  from probe_block[OF pb] have nzB: "?B \<noteq> 0" and rdB: "getBlocks f ?B 1 img = Inr ?W"
    and nfB: "uint (4096 - ?W ! 0) \<le> 40"
    and hit: "Reading (Probe_cb nm) f ?B ?W ?k 5 (uint (?W ! 1)) (img, None) = (Return None, (img, Some sd))"
    by simp_all
  show ?case
  proof (cases "i = 0")
    case True
    then show ?thesis by (simp add: listing_n.simps(2))
  next
    case nz: False
    show ?thesis
    proof (cases "i = ?B")
      case False
      with rw have same: "getBlocks f i 1 img' = getBlocks f i 1 img" by (simp add: rewritten_def)
      have ih: "\<exists>a b. listing_n k f img j = Some (a, b)" if "listing_n k f img' j = Some r" for j r
        using Suc.IH[of j] that by auto
      show ?thesis
        using Suc.prems nz same
        apply (subst listing_n.simps(2))
        apply (subst (asm) listing_n.simps(2))
        apply (auto split: if_splits sum.splits prod.splits flow.splits dest: ih)
        done
    next
      case iB: True
      have len: "length ?W = 256" using getBlocks_length[OF rdB] by simp
      from Reading_probe[OF hit, simplified] have er: "entry_record f nm ?B ?W sd" and loc: "5 \<le> sd_loc sd"
        by simp_all
      from er len have fits: "sd_loc sd + 6 \<le> 256" by (simp add: entry_record_def)
      have inv: "5 + 6 * int ?k \<le> 256" using nfB by simp
      note h = Reading_probe_hit[OF len hit _ inv, simplified]
      from rw have rd': "getBlocks f ?B 1 img' = Inr ?W'" by (simp add: rewritten_def)
      have hdr: "?W' ! 0 = ?W ! 0" "?W' ! 1 = ?W ! 1" "?W' ! 2 = ?W ! 2"
        using loc fits len by (simp_all add: collapsed_prefix)
      obtain fl es where E: "entries_of f ?W ?k 5 (uint (?W ! 1)) = (fl, es)"
        by (cases "entries_of f ?W ?k 5 (uint (?W ! 1))")
      from h E sz have E': "entries_of f ?W' (nat (uint (4096 - ?W' ! 0))) 5 (uint (?W' ! 1)) = (fl, without_first nm es)"
        using hdr by simp
      have nf': "uint (4096 - ?W' ! 0) \<le> 40" using nfB hdr by simp
      show ?thesis
      proof (cases fl)
        case (Return r)
        from listing_n_return[OF nzB rdB nfB E[unfolded Return], of k] iB show ?thesis by simp
      next
        case NextBlock
        from Suc.prems iB listing_n_next[OF nzB rd' nf' E'[unfolded NextBlock], of k]
        have "listing_n k f img' (uint (?W ! 2)) \<noteq> None" using hdr by auto
        from Suc.IH[OF this] listing_n_next[OF nzB rdB nfB E[unfolded NextBlock], of k] iB
        show ?thesis by auto
      qed
    qed
  qed
qed

section \<open>What a block write changes\<close>

lemma WriteAt_inside:
  "fd_rdwr d \<Longrightarrow> 0 \<le> off \<Longrightarrow> nat off + length data \<le> length img \<Longrightarrow>
   WriteAt d img data off = (None, take (nat off) img @ data @ drop (nat off + length data) img)"
  by (simp add: WriteAt_def)

lemma WriteAt_ok:
  "WriteAt d img data off = (None, img') \<Longrightarrow> fd_rdwr d \<and> 0 \<le> off"
  by (auto simp: WriteAt_def split: if_splits)

lemma patch_length:
  "a + length data \<le> length img \<Longrightarrow> length (take a img @ data @ drop (a + length data) img) = length img"
  by simp

lemma patch_nth:
  "a + length data \<le> length img \<Longrightarrow> i < length img \<Longrightarrow> i < a \<or> a + length data \<le> i \<Longrightarrow>
   (take a img @ data @ drop (a + length data) img) ! i = img ! i"
  by (auto simp: nth_append)

lemma patch_data:
  "a + length data \<le> length img \<Longrightarrow> take (length data) (drop a (take a img @ data @ drop (a + length data) img)) = data"
  by simp

lemma patch_outside:
  assumes "a + length data \<le> length img" "b + m \<le> a \<or> a + length data \<le> b"
  shows "take m (drop b (take a img @ data @ drop (a + length data) img)) = take m (drop b img)"
proof -
  let ?p = "take a img @ data @ drop (a + length data) img"
  have lp: "length ?p = length img" by (rule patch_length[OF assms(1)])
  show ?thesis
  proof (rule nth_equalityI)
    show "length (take m (drop b ?p)) = length (take m (drop b img))"
      by (simp only: length_take length_drop lp)
  next
    fix i assume "i < length (take m (drop b ?p))"
    then have i: "i < m" "i < length img - b"
      by (simp_all only: length_take length_drop lp min_less_iff_conj)
    then have bi: "b + i < length img" "b \<le> length img" by simp_all
    have out: "b + i < a \<or> a + length data \<le> b + i" using assms(2) i(1) by linarith
    have "take m (drop b ?p) ! i = ?p ! (b + i)"
      using i(1) bi(2) lp by (simp only: nth_take nth_drop)
    also have "\<dots> = img ! (b + i)"
      by (rule patch_nth[OF assms(1) bi(1) out])
    also have "\<dots> = take m (drop b img) ! i"
      using i(1) bi(2) by (simp only: nth_take nth_drop)
    finally show "take m (drop b ?p) ! i = take m (drop b img) ! i" .
  qed
qed

lemma getBlocks_patched:
  assumes rd: "getBlocks f B 1 img = Inr ws" and len: "length ws' = 256"
  defines "img' \<equiv> take (nat ((block0 f + B) * 512)) img @ alias_bytes ws' @
                    drop (nat ((block0 f + B) * 512) + 512) img"
  shows "getBlocks f B 1 img' = Inr ws'"
    and "s + c \<le> B \<or> B < s \<Longrightarrow> getBlocks f s c img' = getBlocks f s c img"
proof -
  let ?a = "nat ((block0 f + B) * 512)"
  from getBlocks_range[OF rd] have rng: "0 \<le> B" "B + 1 \<le> nblocks f" "0 \<le> block0 f + B"
    "?a + 512 \<le> length img"
    by simp_all
  have dl: "length (alias_bytes ws') = 512" using len by (simp add: alias_bytes_length)
  have a: "?a + length (alias_bytes ws') \<le> length img" using rng dl by simp
  have l': "length img' = length img"
    unfolding img'_def using patch_length[OF a] dl by simp
  have d: "take 512 (drop ?a img') = alias_bytes ws'"
    unfolding img'_def using patch_data[OF a] dl by simp
  show "getBlocks f B 1 img' = Inr ws'"
    using rng l' d dl
    by (simp add: getBlocks_def ReadAt_def raw2words_alias alias_words_bytes zero_le_mult_iff
          del: distrib_right_numeral)
  show "getBlocks f s c img' = getBlocks f s c img" if sc: "s + c \<le> B \<or> B < s"
  proof (cases "0 < c \<and> 0 \<le> s \<and> 0 \<le> block0 f + s")
    case False
    then show ?thesis
      by (auto simp: getBlocks_def ReadAt_def l' zero_le_mult_iff mult_less_0_iff
            simp del: distrib_right_numeral)
  next
    case True
    let ?b = "nat ((block0 f + s) * 512)" and ?m = "nat (c * 512)"
    define x y z where "x = (block0 f + s) * 512" and "y = c * 512" and "z = (block0 f + B) * 512"
    have "x + y \<le> z \<or> z + 512 \<le> x"
      using sc unfolding x_def y_def z_def by auto
    moreover have "0 \<le> x" "0 \<le> y" "0 \<le> z"
      using True rng unfolding x_def y_def z_def by simp_all
    ultimately have "nat x + nat y \<le> nat z \<or> nat z + 512 \<le> nat x"
      by linarith
    then have "?b + ?m \<le> ?a \<or> ?a + 512 \<le> ?b"
      unfolding x_def y_def z_def .
    then have "take ?m (drop ?b img') = take ?m (drop ?b img)"
      unfolding img'_def using patch_outside[OF a, of ?b ?m] dl by simp
    then show ?thesis
      by (simp add: getBlocks_def ReadAt_def l' del: distrib_right_numeral)
  qed
qed

section \<open>Removal on the small images\<close>

lemma Remove_success_probe:
  assumes "Remove MapUpper f name img = Some (None, img')"
  shows "\<exists>n sd img0. scan_n n (Probe_cb (ToUpper MapUpper name)) f 1 (img, None) = Some (None, (img0, Some sd))"
proof -
  let ?nm = "ToUpper MapUpper name"
  from assms obtain z where z: "scan_from (Remove_cb f ?nm) f 1 (img, False, None) = Some z"
    by (cases "scan_from (Remove_cb f ?nm) f 1 (img, False, None)") (auto simp: Remove_def scan_def)
  from scan_n_complete[OF z] obtain n where n: "scan_n n (Remove_cb f ?nm) f 1 (img, False, None) = Some z" ..
  from remove_scan_probe[OF n] obtain y where y: "scan_n n (Probe_cb ?nm) f 1 (img, None) = Some y" ..
  note sp = scan_from_probe[OF scan_n_sound[OF y]]
  show ?thesis
  proof (cases "snd (snd y)")
    case None
    with sp have "scan_from (Remove_cb f ?nm) f 1 (img, False, None) = Some (fst y, (img, False, None))"
      by simp
    with assms show ?thesis by (auto simp: Remove_def scan_def split: option.splits)
  next
    case (Some sd)
    with sp have "fst y = None" by simp
    with Some have "y = (None, (fst (snd y), Some sd))" by (simp add: prod_eq_iff)
    with y show ?thesis by metis
  qed
qed

lemma List_listing:
  "List f img = Some (fis, err) \<longleftrightarrow> (\<exists>n. listing_n n f img 1 = Some (err, fis))"
proof
  assume "List f img = Some (fis, err)"
  then obtain img2 where "scan_from List_cb f 1 (img, []) = Some (err, (img2, fis))"
    by (auto simp: List_def scan_def)
  from scan_n_complete[OF this] obtain n where "scan_n n List_cb f 1 (img, []) = Some (err, (img2, fis))" ..
  then have "listing_n n f img 1 = Some (err, fis)"
    by (auto simp: scan_n_List_cb)
  then show "\<exists>n. listing_n n f img 1 = Some (err, fis)" ..
next
  assume "\<exists>n. listing_n n f img 1 = Some (err, fis)"
  then obtain n where "listing_n n f img 1 = Some (err, fis)" ..
  then have "scan_n n List_cb f 1 (img, []) = Some (err, (img, fis))"
    by (simp add: scan_n_List_cb)
  from scan_n_sound[OF this] show "List f img = Some (fis, err)"
    by (simp add: List_def scan_def)
qed

lemma image_of_patch:
  "\<forall>b\<in>set bs. length b = 256 \<Longrightarrow> k < length bs \<Longrightarrow> length ws = 256 \<Longrightarrow>
   take (k * 512) (image_of bs) @ alias_bytes ws @ drop (k * 512 + 512) (image_of bs) = image_of (bs[k := ws])"
proof (induction bs arbitrary: k)
  case Nil
  then show ?case by simp
next
  case (Cons b bs)
  show ?case
  proof (cases k)
    case 0
    with Cons.prems show ?thesis by (simp add: image_of_Cons alias_bytes_length)
  next
    case (Suc j)
    with Cons.prems Cons.IH[of j] show ?thesis
      by (simp add: image_of_Cons alias_bytes_length add.commute)
  qed
qed

lemma WriteAt_image_of:
  assumes "\<forall>b\<in>set bs. length b = 256" "k < length bs" "length ws = 256" "fd_rdwr d"
  shows "WriteAt d (image_of bs) (words2raw nativeOrder ws) (int k * 512) = (None, image_of (bs[k := ws]))"
proof -
  have n: "nat (int k * 512) = k * 512" by (simp add: nat_mult_distrib)
  have l: "k * 512 + 512 \<le> length (image_of bs)"
    using assms(1,2) by (simp add: image_of_length)
  show ?thesis
    using assms l image_of_patch[OF assms(1-3)]
    by (simp add: WriteAt_def words2raw_alias n alias_bytes_length)
qed

lemma twins_dir_read: "getBlocks fs4 1 1 twins_img = Inr twins_dir"
  unfolding twins_img_def
  by (subst getBlocks_image_of) (simp_all add: fs4_simps block_of_length twins_dir_def)

lemma twins_dir_header:
  "uint (4096 - twins_dir ! 0) = 2" "uint (twins_dir ! Suc 0) = 2" "uint (twins_dir ! 2) = 0"
  by (simp_all add: twins_dir_words)

lemma twins_probe:
  "scan_from (Probe_cb ''NAME.GO'') fs4 1 (twins_img, None) =
     Some (None, (twins_img,
       Some \<lparr>sd_index = 1, sd_loc = 5, sd_block0 = 2, sd_size = 1, sd_words = twins_dir,
          sd_file = Some \<lparr>fe_name = [897, 837, 0, 463], fe_date = 0, fe_len = 4095\<rparr>\<rparr>))"
  apply (subst scan_from_block[where ws = twins_dir])
     apply (simp_all add: twins_dir_read twins_dir_header)
  apply (simp add: Reading_numeral twins_dir_entries Probe_cb_def Len_def fs4_simps names)
  done

lemma upper_NAME: "ToUpper MapUpper ''NAME.GO'' = ''NAME.GO''"
  by code_simp

lemma twins_collapsed: "collapsed twins_dir 5 1 = twins_after_dir"
  by (simp add: collapsed_def twins_dir_words twins_after_dir_def block_of_def flip: replicate_add)

lemma two_files_collapsed: "collapsed two_files_dir 5 1 = two_files_after_dir"
  by (simp add: collapsed_def two_files_dir_words two_files_after_dir_def block_of_def flip: replicate_add)

lemma twins_removed: "Remove MapUpper fs4 ''NAME.GO'' twins_img = Some (None, twins_after_img)"
proof -
  have w: "WriteAt (fd fs4) twins_img (words2raw nativeOrder twins_after_dir) (int 1 * 512) =
      (None, twins_after_img)"
    unfolding twins_img_def twins_after_img_def
    by (subst WriteAt_image_of) (simp_all add: block_of_length twins_dir_def twins_after_dir_def fs4_simps)
  have p: "scan_from (Probe_cb (ToUpper MapUpper ''NAME.GO'')) fs4 1 (twins_img, None) =
     Some (None, (twins_img,
       Some \<lparr>sd_index = 1, sd_loc = 5, sd_block0 = 2, sd_size = 1, sd_words = twins_dir,
          sd_file = Some \<lparr>fe_name = [897, 837, 0, 463], fe_date = 0, fe_len = 4095\<rparr>\<rparr>))"
    using twins_probe by (simp add: upper_NAME)
  from Remove_at_match(6)[OF p] w show ?thesis
    by (simp add: twins_collapsed fs4_simps)
qed

lemma twins_after_list:
  "List fs4 twins_after_img =
     Some ([\<lparr>fi_Name = ''NAME.GO'', fi_Date = 0, fi_Size = 1, fi_Offset = 3\<rparr>], None)"
  unfolding List_def scan_def
  apply (subst scan_from_block[where ws = twins_after_dir])
     apply (simp_all add: twins_after_dir_read twins_after_dir_header)
  apply (simp add: Reading_numeral twins_after_dir_entries twins_after_dir_header List_cb_free List_cb_file
      Len_def fs4_simps names scan_from_end)
  done

lemma two_files_list:
  "List fs4 two_files_img =
     Some ([\<lparr>fi_Name = ''NAME.GO'', fi_Date = 0, fi_Size = 1, fi_Offset = 2\<rparr>,
            \<lparr>fi_Name = ''AB'', fi_Date = 0, fi_Size = 1, fi_Offset = 3\<rparr>], None)"
  unfolding List_def scan_def
  apply (subst scan_from_block[where ws = two_files_dir])
     apply (simp_all add: two_files_dir_read two_files_dir_header)
  apply (simp add: Reading_numeral two_files_dir_entries two_files_dir_header List_cb_free List_cb_file
      Len_def fs4_simps names scan_from_end)
  done

lemma two_files_removed: "Remove MapUpper fs4 ''name.go'' two_files_img = Some (None, two_files_after_img)"
proof -
  have w: "WriteAt (fd fs4) two_files_img (words2raw nativeOrder two_files_after_dir) (int 1 * 512) =
      (None, two_files_after_img)"
    unfolding two_files_img_def two_files_after_img_def
    by (subst WriteAt_image_of) (simp_all add: block_of_length two_files_dir_def two_files_after_dir_def fs4_simps)
  have p: "scan_from (Probe_cb (ToUpper MapUpper ''name.go'')) fs4 1 (two_files_img, None) =
     Some (None, (two_files_img,
       Some \<lparr>sd_index = 1, sd_loc = 5, sd_block0 = 2, sd_size = 1, sd_words = two_files_dir,
          sd_file = Some \<lparr>fe_name = [897, 837, 0, 463], fe_date = 0, fe_len = 4095\<rparr>\<rparr>))"
    using two_files_probe_hit by (simp add: scan_def upper_names)
  from Remove_at_match(6)[OF p] w show ?thesis
    by (simp add: two_files_collapsed fs4_simps)
qed

lemma wide_dir_read: "getBlocks fs4 1 1 wide_img = Inr wide_dir"
  unfolding wide_img_def
  by (subst getBlocks_image_of) (simp_all add: fs4_simps block_of_length wide_dir_def)

lemma wide_dir_words:
  "wide_dir = 4094 # 2 # 0 # 0 # 0 # 897 # 837 # 0 # 463 # 0 # 65535 # 66 # 0 # 0 # 0 # 0 # 4095 #
     replicate 239 0"
  by (simp add: wide_dir_def block_of_def)

lemma wide_dir_header:
  "uint (4096 - wide_dir ! 0) = 2" "uint (wide_dir ! Suc 0) = 2" "uint (wide_dir ! 2) = 0"
  by (simp_all add: wide_dir_words)

lemma wide_dir_entries:
  "length wide_dir = 256"
  "wide_dir ! 5 = 897" "wide_dir ! 11 = 66"
  "entry_at wide_dir 5 = \<lparr>fe_name = [897, 837, 0, 463], fe_date = 0, fe_len = 65535\<rparr>"
  "entry_at wide_dir 11 = \<lparr>fe_name = [66, 0, 0, 0], fe_date = 0, fe_len = 4095\<rparr>"
  by (simp_all add: wide_dir_words entry_at_def)

lemma wide_name:
  "Name \<lparr>fe_name = [897, 837, 0, 463], fe_date = 0, fe_len = 65535\<rparr> = ''NAME.GO''"
  by code_simp

lemma wide_list:
  "List fs4 wide_img =
     Some ([\<lparr>fi_Name = ''NAME.GO'', fi_Date = 0, fi_Size = - 61439, fi_Offset = 2\<rparr>,
            \<lparr>fi_Name = ''AB'', fi_Date = 0, fi_Size = 1, fi_Offset = - 61437\<rparr>], None)"
  unfolding List_def scan_def
  apply (subst scan_from_block[where ws = wide_dir])
     apply (simp_all add: wide_dir_read wide_dir_header)
  apply (simp add: Reading_numeral wide_dir_entries wide_dir_header List_cb_free List_cb_file
      Len_def fs4_simps names wide_name scan_from_end)
  done

lemma wide_probe:
  "scan_from (Probe_cb ''NAME.GO'') fs4 1 (wide_img, None) =
     Some (None, (wide_img,
       Some \<lparr>sd_index = 1, sd_loc = 5, sd_block0 = 2, sd_size = - 61439, sd_words = wide_dir,
          sd_file = Some \<lparr>fe_name = [897, 837, 0, 463], fe_date = 0, fe_len = 65535\<rparr>\<rparr>))"
  apply (subst scan_from_block[where ws = wide_dir])
     apply (simp_all add: wide_dir_read wide_dir_header)
  apply (simp add: Reading_numeral wide_dir_entries Probe_cb_def Len_def fs4_simps wide_name)
  done

lemma wide_collapsed: "collapsed wide_dir 5 (- 61439) = wide_after_dir"
  by (simp add: collapsed_def wide_dir_words wide_after_dir_def block_of_def flip: replicate_add)

lemma wide_removed: "Remove MapUpper fs4 ''NAME.GO'' wide_img = Some (None, wide_after_img)"
proof -
  have w: "WriteAt (fd fs4) wide_img (words2raw nativeOrder wide_after_dir) (int 1 * 512) =
      (None, wide_after_img)"
    unfolding wide_img_def wide_after_img_def
    by (subst WriteAt_image_of) (simp_all add: block_of_length wide_dir_def wide_after_dir_def fs4_simps)
  have p: "scan_from (Probe_cb (ToUpper MapUpper ''NAME.GO'')) fs4 1 (wide_img, None) =
     Some (None, (wide_img,
       Some \<lparr>sd_index = 1, sd_loc = 5, sd_block0 = 2, sd_size = - 61439, sd_words = wide_dir,
          sd_file = Some \<lparr>fe_name = [897, 837, 0, 463], fe_date = 0, fe_len = 65535\<rparr>\<rparr>))"
    using wide_probe by (simp add: upper_NAME)
  from Remove_at_match(6)[OF p] w show ?thesis
    by (simp add: wide_collapsed fs4_simps)
qed

lemma wide_after_dir_read: "getBlocks fs4 1 1 wide_after_img = Inr wide_after_dir"
  unfolding wide_after_img_def
  by (subst getBlocks_image_of) (simp_all add: fs4_simps block_of_length wide_after_dir_def)

lemma wide_after_dir_words:
  "wide_after_dir = 4094 # 2 # 0 # 0 # 0 # 0 # 65535 # 66 # 0 # 0 # 0 # 0 # 4095 # replicate 243 0"
  by (simp add: wide_after_dir_def block_of_def)

lemma wide_after_dir_header:
  "uint (4096 - wide_after_dir ! 0) = 2" "uint (wide_after_dir ! Suc 0) = 2" "uint (wide_after_dir ! 2) = 0"
  by (simp_all add: wide_after_dir_words)

lemma wide_after_dir_entries:
  "length wide_after_dir = 256"
  "wide_after_dir ! 5 = 0" "uint (4096 - wide_after_dir ! 6) = 4097" "wide_after_dir ! 7 = 66"
  "entry_at wide_after_dir 7 = \<lparr>fe_name = [66, 0, 0, 0], fe_date = 0, fe_len = 4095\<rparr>"
  by (simp_all add: wide_after_dir_words entry_at_def)

lemma wide_after_list:
  "List fs4 wide_after_img = Some ([], Some (CorruptDirectory 4100))"
  unfolding List_def scan_def
  apply (subst scan_from_block[where ws = wide_after_dir])
     apply (simp_all add: wide_after_dir_read wide_after_dir_header)
  apply (simp add: Reading_numeral wide_after_dir_entries wide_after_dir_header List_cb_free List_cb_file
      Len_def fs4_simps names scan_from_end)
  done

lemma two_files_patched:
  "take 512 two_files_img @ words2raw nativeOrder two_files_after_dir @ drop 1024 two_files_img =
   two_files_after_img"
  unfolding two_files_img_def two_files_after_img_def words2raw_alias
  using image_of_patch[of "[block_of [], two_files_dir, block_of [7], block_of [8]]" 1 two_files_after_dir]
  by (simp add: block_of_length two_files_dir_def two_files_after_dir_def)

lemma two_files_after_dir_read: "getBlocks fs4 1 1 two_files_after_img = Inr two_files_after_dir"
  unfolding two_files_after_img_def
  by (subst getBlocks_image_of) (simp_all add: fs4_simps block_of_length two_files_after_dir_def)

lemma twins_dir_read2: "getBlocks fs2 1 1 twins_img = Inr twins_dir"
  unfolding twins_img_def
  by (subst getBlocks_image_of) (simp_all add: fs2_simps block_of_length twins_dir_def)

lemma twins_probe_corrupt:
  "scan (Probe_cb ''ZZ'') fs2 (twins_img, None) = Some (Some (CorruptDirectory 3), (twins_img, None))"
  unfolding scan_def
  apply (subst scan_from_block[where ws = twins_dir])
     apply (simp_all add: twins_dir_read2 twins_dir_header)
  apply (simp add: Reading_numeral twins_dir_entries Len_def fs2_simps)
  done

lemma loop_probe:
  "scan (Probe_cb ''ZZ'') fs2 (loop_img, None) = None"
  unfolding scan_def
  by (rule scan_from_self_loop[where ws = loop_dir])
     (simp_all add: loop_dir_read loop_dir_header loop_dir_words Probe_cb_def)

lemma uncounted_dir_read: "getBlocks fs2 1 1 uncounted_img = Inr uncounted_dir"
  unfolding uncounted_img_def
  by (subst getBlocks_image_of) (simp_all add: fs2_simps block_of_length uncounted_dir_def)

lemma uncounted_dir_header: "uint (4096 - uncounted_dir ! 0) = 4096"
  by (simp add: uncounted_dir_def block_of_def)

lemma uncounted_scan:
  "scan cb fs2 (uncounted_img, s) = Some (Some (TooManyEntries 1 4096), (uncounted_img, s))"
  unfolding scan_def
  by (subst scan_from.simps) (simp add: uncounted_dir_read uncounted_dir_header Let_def)

lemma loop_remove_scan:
  "scan (Remove_cb fs2 nm) fs2 (loop_img, False, None) = None"
  unfolding scan_def
  by (rule scan_from_self_loop[where ws = loop_dir])
     (simp_all add: loop_dir_read loop_dir_header loop_dir_words Remove_cb_def)

section \<open>What Remove returns\<close>

lemma WriteAt_block:
  assumes "0 \<le> off" "nat off + length data \<le> length img"
  shows "WriteAt d img data off =
     (if fd_rdwr d then (None, take (nat off) img @ data @ drop (nat off + length data) img)
      else (Some BadFileDescriptor, img))"
  using assms by (simp add: WriteAt_def)

lemma Remove_of_probe:
  "scan_from (Remove_cb f nm) f 1 (img, False, None) = Some z \<Longrightarrow>
   \<exists>y. scan_from (Probe_cb nm) f 1 (img, None) = Some y"
proof -
  assume "scan_from (Remove_cb f nm) f 1 (img, False, None) = Some z"
  from scan_n_complete[OF this] obtain n
    where "scan_n n (Remove_cb f nm) f 1 (img, False, None) = Some z" ..
  from remove_scan_probe[OF this] obtain y where "scan_n n (Probe_cb nm) f 1 (img, None) = Some y" ..
  from scan_n_sound[OF this] show ?thesis ..
qed

text \<open>
  C1, as the code has it. \<open>Remove\<close> returns the file-not-found error only when the
  scan has gone through the whole directory. On a directory block whose count word is
  0, no entry matches any name and \<open>Remove\<close> returns the too-many-entries error of
  the scan; on the directory that names itself as next block, where no entry matches
  either, \<open>Remove\<close> does not return.
\<close>

theorem Remove_returns_the_error_of_the_scan:
  "(\<forall>MapUpper. Remove MapUpper fs2 ''zz'' uncounted_img =
       Some (Some (TooManyEntries 1 4096), uncounted_img)) \<and>
   (\<forall>MapUpper. Remove MapUpper fs2 ''zz'' loop_img = None)"
  by (simp add: Remove_def uncounted_scan loop_remove_scan)

text \<open>
  C1, amended. What \<open>Remove\<close> returns is settled by the scan that looks for the
  upper-cased name. When that scan finds \<open>sd\<close>, the first file entry of the name, at
  \<open>loc = sd_loc sd\<close> of the directory block \<open>sd_index sd\<close> whose words are
  \<open>sd_words sd\<close>, \<open>Remove\<close> writes that block back collapsed: word \<open>loc\<close> set to 0,
  word \<open>loc + 1\<close> to \<open>0o10000 - size\<close>, the words from \<open>loc + 6\<close> to the end of the
  block copied to \<open>loc + 2\<close> onwards, the last four words left in place, and the words
  before \<open>loc\<close>, the \<open>nfiles\<close> word among them, as they were. On a descriptor opened
  read/write the image afterwards is the image before with the 512 bytes at
  \<open>(block0 + index) * 512\<close> replaced by the bytes of the collapsed block, and the
  block reads as the collapsed block; on a read-only descriptor the write fails and the
  image is as it was. Nothing else is written: the scan stops at that entry. When the
  scan ends without a match, \<open>Remove\<close> returns the file-not-found error; when it ends
  in an error, \<open>Remove\<close> returns that error; when it does not return, neither does
  \<open>Remove\<close>; in these cases the image is as it was.
\<close>

theorem Remove_collapses_first_match:
  "(scan (Probe_cb (ToUpper MapUpper name)) f (img, None) = Some (err, (img0, Some sd)) \<longrightarrow>
      getBlocks f (sd_index sd) 1 img = Inr (sd_words sd) \<and>
      5 \<le> sd_loc sd \<and> sd_loc sd + 6 \<le> 256 \<and>
      sd_file sd = Some (entry_at (sd_words sd) (sd_loc sd)) \<and>
      Name (entry_at (sd_words sd) (sd_loc sd)) = ToUpper MapUpper name \<and>
      sd_size sd = Len (entry_at (sd_words sd) (sd_loc sd)) \<and>
      collapsed (sd_words sd) (nat (sd_loc sd)) (sd_size sd) ! 0 = sd_words sd ! 0 \<and>
      Remove MapUpper f name img =
        Some (if fd_rdwr (fd f)
              then (None,
                    take (nat ((block0 f + sd_index sd) * 512)) img @
                    words2raw nativeOrder (collapsed (sd_words sd) (nat (sd_loc sd)) (sd_size sd)) @
                    drop (nat ((block0 f + sd_index sd) * 512) + 512) img)
              else (Some BadFileDescriptor, img)) \<and>
      getBlocks f (sd_index sd) 1
        (take (nat ((block0 f + sd_index sd) * 512)) img @
         words2raw nativeOrder (collapsed (sd_words sd) (nat (sd_loc sd)) (sd_size sd)) @
         drop (nat ((block0 f + sd_index sd) * 512) + 512) img) =
        Inr (collapsed (sd_words sd) (nat (sd_loc sd)) (sd_size sd))) \<and>
   (scan (Probe_cb (ToUpper MapUpper name)) f (img, None) = Some (None, (img0, None)) \<longrightarrow>
      Remove MapUpper f name img = Some (Some (FileNotFound (ToUpper MapUpper name)), img)) \<and>
   (scan (Probe_cb (ToUpper MapUpper name)) f (img, None) = Some (Some e, st) \<longrightarrow>
      Remove MapUpper f name img = Some (Some e, img)) \<and>
   (scan (Probe_cb (ToUpper MapUpper name)) f (img, None) = None \<longrightarrow>
      Remove MapUpper f name img = None)"
proof (intro conjI impI)
  assume "scan (Probe_cb (ToUpper MapUpper name)) f (img, None) = Some (None, (img0, None))"
  then have "scan_from (Probe_cb (ToUpper MapUpper name)) f 1 (img, None) = Some (None, (img0, None))"
    by (simp add: scan_def)
  from scan_from_probe[OF this]
  show "Remove MapUpper f name img = Some (Some (FileNotFound (ToUpper MapUpper name)), img)"
    by (simp add: Remove_def scan_def)
next
  assume "scan (Probe_cb (ToUpper MapUpper name)) f (img, None) = Some (Some e, st)"
  then have p: "scan_from (Probe_cb (ToUpper MapUpper name)) f 1 (img, None) = Some (Some e, st)"
    by (simp add: scan_def)
  note sp = scan_from_probe[OF p]
  have "snd st = None"
  proof (cases "snd st")
    case (Some sd')
    with sp show ?thesis by simp
  qed simp
  with sp show "Remove MapUpper f name img = Some (Some e, img)"
    by (simp add: Remove_def scan_def)
next
  assume none: "scan (Probe_cb (ToUpper MapUpper name)) f (img, None) = None"
  show "Remove MapUpper f name img = None"
  proof (cases "scan_from (Remove_cb f (ToUpper MapUpper name)) f 1 (img, False, None)")
    case None
    then show ?thesis by (simp add: Remove_def scan_def)
  next
    case (Some z)
    from Remove_of_probe[OF this] none show ?thesis by (simp add: scan_def)
  qed
next
  assume "scan (Probe_cb (ToUpper MapUpper name)) f (img, None) = Some (err, (img0, Some sd))"
  then have "scan_from (Probe_cb (ToUpper MapUpper name)) f 1 (img, None) = Some (err, (img0, Some sd))"
    by (simp add: scan_def)
  note m = Remove_at_match[OF this]
  let ?W' = "collapsed (sd_words sd) (nat (sd_loc sd)) (sd_size sd)"
  let ?a = "nat ((block0 f + sd_index sd) * 512)"
  from m(2) show "sd_file sd = Some (entry_at (sd_words sd) (sd_loc sd))"
    and "Name (entry_at (sd_words sd) (sd_loc sd)) = ToUpper MapUpper name"
    and "sd_size sd = Len (entry_at (sd_words sd) (sd_loc sd))"
    by (simp_all add: entry_record_def)
  show "getBlocks f (sd_index sd) 1 img = Inr (sd_words sd)" by (rule m(1))
  show "5 \<le> sd_loc sd" by (rule m(3))
  show "sd_loc sd + 6 \<le> 256" by (rule m(4))
  show "?W' ! 0 = sd_words sd ! 0"
    using m(3,4,5) by (intro collapsed_prefix) simp_all
  have len': "length ?W' = 256" using m(3,4,5) by (simp add: collapsed_length)
  have dl: "length (words2raw nativeOrder ?W') = 512"
    using len' by (simp add: words2raw_alias alias_bytes_length)
  from getBlocks_range[OF m(1)] have off: "0 \<le> (block0 f + sd_index sd) * 512"
    and inside: "?a + 512 \<le> length img"
    by simp_all
  have "WriteAt (fd f) img (words2raw nativeOrder ?W') ((block0 f + sd_index sd) * 512) =
      (if fd_rdwr (fd f)
       then (None, take ?a img @ words2raw nativeOrder ?W' @ drop (?a + 512) img)
       else (Some BadFileDescriptor, img))"
    using WriteAt_block[OF off, of "words2raw nativeOrder ?W'" img "fd f"] inside dl by simp
  with m(6) show "Remove MapUpper f name img =
        Some (if fd_rdwr (fd f)
              then (None, take ?a img @ words2raw nativeOrder ?W' @ drop (?a + 512) img)
              else (Some BadFileDescriptor, img))"
    by (simp only:)
  from getBlocks_patched(1)[OF m(1) len']
  show "getBlocks f (sd_index sd) 1 (take ?a img @ words2raw nativeOrder ?W' @ drop (?a + 512) img) =
        Inr ?W'"
    by (simp only: words2raw_alias)
qed

theorem Remove_collapses_first_match_witness:
  "Remove (\<lambda>s. s) fs4 ''name.go'' two_files_img = Some (None, two_files_after_img) \<and>
   getBlocks fs4 1 1 two_files_after_img = Inr two_files_after_dir \<and>
   Remove (\<lambda>s. s) fs4 ''zz'' two_files_img = Some (Some (FileNotFound ''ZZ''), two_files_img) \<and>
   Remove (\<lambda>s. s) fs2 ''zz'' twins_img = Some (Some (CorruptDirectory 3), twins_img) \<and>
   Remove (\<lambda>s. s) fs2 ''zz'' loop_img = None"
proof -
  note w1 = Remove_collapses_first_match[where name = "''name.go''" and f = fs4 and img = two_files_img
      and MapUpper = "\<lambda>s. s", THEN conjunct1, rule_format, OF two_files_probe_hit[folded upper_names(1)[of "\<lambda>s. s"]]]
  note w2 = Remove_collapses_first_match[where name = "''zz''" and f = fs4 and img = two_files_img
      and MapUpper = "\<lambda>s. s", THEN conjunct2, THEN conjunct1, rule_format,
      OF two_files_probe_miss[folded upper_names(2)[of "\<lambda>s. s"]]]
  note w3 = Remove_collapses_first_match[where name = "''zz''" and f = fs2 and img = twins_img
      and MapUpper = "\<lambda>s. s", THEN conjunct2, THEN conjunct2, THEN conjunct1, rule_format,
      OF twins_probe_corrupt[folded upper_names(2)[of "\<lambda>s. s"]]]
  note w4 = Remove_collapses_first_match[where name = "''zz''" and f = fs2 and img = loop_img
      and MapUpper = "\<lambda>s. s", THEN conjunct2, THEN conjunct2, THEN conjunct2, rule_format,
      OF loop_probe[folded upper_names(2)[of "\<lambda>s. s"]]]
  from w1 have r1: "Remove (\<lambda>s. s) fs4 ''name.go'' two_files_img = Some (None, two_files_after_img)"
    by (simp add: fs4_simps two_files_collapsed two_files_patched)
  from w1 have r2: "getBlocks fs4 1 1 two_files_after_img = Inr two_files_after_dir"
    by (simp add: fs4_simps two_files_collapsed two_files_patched)
  from r1 r2 w2 w3 w4 show ?thesis by (simp add: upper_names)
qed


section \<open>Remove is local\<close>

text \<open>
  C2, as the code has it. \<open>Remove\<close> stops at the first entry of the name. In a
  directory that holds two entries named \<open>NAME.GO\<close>, removing \<open>NAME.GO\<close> succeeds
  and a listing of the image afterwards still reports \<open>NAME.GO\<close>, the second entry.
  And the free marker keeps the low 16 bits of \<open>0o10000 - size\<close>: where the removed
  entry has the length word \<open>0o177777\<close>, a size of \<open>-61439\<close> blocks, the free extent
  written for it has 4097 blocks, and the file \<open>AB\<close> behind it, listed at block
  \<open>-61437\<close> before, lies beyond the filesystem afterwards and is listed no more.
\<close>

theorem Remove_leaves_second_entry_of_same_name:
  "(\<forall>MapUpper. Remove MapUpper fs4 ''NAME.GO'' twins_img = Some (None, twins_after_img)) \<and>
   List fs4 twins_after_img =
     Some ([\<lparr>fi_Name = ''NAME.GO'', fi_Date = 0, fi_Size = 1, fi_Offset = 3\<rparr>], None) \<and>
   List fs4 wide_img =
     Some ([\<lparr>fi_Name = ''NAME.GO'', fi_Date = 0, fi_Size = - 61439, fi_Offset = 2\<rparr>,
            \<lparr>fi_Name = ''AB'', fi_Date = 0, fi_Size = 1, fi_Offset = - 61437\<rparr>], None) \<and>
   (\<forall>MapUpper. Remove MapUpper fs4 ''NAME.GO'' wide_img = Some (None, wide_after_img)) \<and>
   List fs4 wide_after_img = Some ([], Some (CorruptDirectory 4100))"
  using twins_removed twins_after_list wide_list wide_removed wide_after_list
  by simp


text \<open>
  C2, amended. After \<open>Remove\<close> has succeeded the image has the length it had and
  differs at most in the 512 bytes of one directory block, the block of the entry
  \<open>sd\<close> that a scan finds first for the name: every byte outside that block is as it
  was, every range of blocks that does not hold it reads as before, and the block
  itself reads as the collapsed block. When the size of the removed entry is not
  negative, a listing of the image afterwards returns exactly when a listing before
  does, and it returns the same entries and the same error, if any, without the first
  entry of the upper-cased name: every other entry keeps its name, date, size and
  offset.
\<close>

theorem Remove_is_local:
  assumes rem: "Remove MapUpper f name img = Some (None, img')"
  shows "length img' = length img \<and>
     (\<exists>sd img0. scan (Probe_cb (ToUpper MapUpper name)) f (img, None) = Some (None, (img0, Some sd)) \<and>
        0 < sd_index sd \<and> sd_index sd < nblocks f \<and> 0 \<le> block0 f + sd_index sd \<and>
        (\<forall>i<length img. i < nat ((block0 f + sd_index sd) * 512) \<or>
                         nat ((block0 f + sd_index sd) * 512) + 512 \<le> i
            \<longrightarrow> img' ! i = img ! i) \<and>
        (\<forall>s c. s + c \<le> sd_index sd \<or> sd_index sd < s \<longrightarrow>
            getBlocks f s c img' = getBlocks f s c img) \<and>
        getBlocks f (sd_index sd) 1 img' =
          Inr (collapsed (sd_words sd) (nat (sd_loc sd)) (sd_size sd)) \<and>
        (0 \<le> sd_size sd \<longrightarrow>
           List f img' =
             map_option (\<lambda>(fis, err). (without_first (ToUpper MapUpper name) fis, err)) (List f img)))"
proof -
  let ?nm = "ToUpper MapUpper name"
  from Remove_success_probe[OF rem] obtain n sd img0
    where pb: "scan_n n (Probe_cb ?nm) f 1 (img, None) = Some (None, (img0, Some sd))"
    by blast
  let ?B = "sd_index sd" and ?W = "sd_words sd"
  let ?W' = "collapsed (sd_words sd) (nat (sd_loc sd)) (sd_size sd)"
  let ?a = "nat ((block0 f + ?B) * 512)"
  note m = Remove_at_match[OF scan_n_sound[OF pb]]
  note rd = m(1) and loc = m(3) and fits = m(4) and len = m(5)
  from probe_block[OF pb] have nz: "?B \<noteq> 0" by simp
  from getBlocks_range[OF rd] have rng: "0 \<le> ?B" "?B + 1 \<le> nblocks f" "0 \<le> block0 f + ?B"
    "?a + 512 \<le> length img"
    by simp_all
  have len': "length ?W' = 256" using loc fits len by (simp add: collapsed_length)
  have dl: "length (alias_bytes ?W') = 512" using len' by (simp add: alias_bytes_length)
  from m(6) rem have wa: "WriteAt (fd f) img (alias_bytes ?W') ((block0 f + ?B) * 512) = (None, img')"
    by (simp add: words2raw_alias del: distrib_right_numeral)
  from WriteAt_ok[OF wa] have ok: "fd_rdwr (fd f)" "0 \<le> (block0 f + ?B) * 512" by simp_all
  have img': "img' = take ?a img @ alias_bytes ?W' @ drop (?a + 512) img"
    using wa WriteAt_inside[OF ok, of "alias_bytes ?W'" img] rng dl by simp
  have a: "?a + length (alias_bytes ?W') \<le> length img" using rng dl by simp
  note gp = getBlocks_patched[OF rd len', folded img']
  have l: "length img' = length img"
    unfolding img' using patch_length[OF a] dl by simp
  have frame: "\<forall>i<length img. i < ?a \<or> ?a + 512 \<le> i \<longrightarrow> img' ! i = img ! i"
    unfolding img' using patch_nth[OF a] dl by simp
  have rw: "rewritten f img img' ?B ?W'"
    unfolding rewritten_def
  proof (intro conjI allI impI)
    show "getBlocks f ?B 1 img' = Inr ?W'" by (rule gp(1))
    fix i assume "i \<noteq> ?B"
    then have "i + 1 \<le> ?B \<or> ?B < i" by linarith
    then show "getBlocks f i 1 img' = getBlocks f i 1 img" by (rule gp(2))
  qed
  have lst: "List f img' = Some (without_first ?nm fis, err)"
    if L: "List f img = Some (fis, err)" and sz: "0 \<le> sd_size sd" for fis err
  proof -
    from L obtain k where k: "listing_n k f img 1 = Some (err, fis)"
      by (auto simp: List_listing)
    note c = listing_after_collapse[OF rw pb pb k]
    with sz obtain k' where "listing_n k' f img' 1 = Some (err, without_first ?nm fis)" by blast
    then show ?thesis by (auto simp: List_listing)
  qed
  have lst': "List f img' = map_option (\<lambda>(fis, err). (without_first ?nm fis, err)) (List f img)"
    if sz: "0 \<le> sd_size sd"
  proof (cases "List f img")
    case (Some r)
    then obtain fis err where "List f img = Some (fis, err)" by (cases r) auto
    from lst[OF this sz] this show ?thesis by simp
  next
    case None
    have "List f img' = None"
    proof (cases "List f img'")
      case (Some r')
      then obtain fis' err' where "List f img' = Some (fis', err')" by (cases r') auto
      then obtain k where "listing_n k f img' 1 = Some (err', fis')" by (auto simp: List_listing)
      then have "listing_n k f img' 1 \<noteq> None" by simp
      from listing_returns_before[OF rw pb sz this] obtain e ys where "listing_n k f img 1 = Some (e, ys)"
        by auto
      then have "List f img = Some (ys, e)" by (auto simp: List_listing)
      with None show ?thesis by simp
    qed simp
    with None show ?thesis by simp
  qed
  have sc: "scan (Probe_cb ?nm) f (img, None) = Some (None, (img0, Some sd))"
    using scan_n_sound[OF pb] by (simp add: scan_def)
  have "scan (Probe_cb ?nm) f (img, None) = Some (None, (img0, Some sd)) \<and>
        0 < sd_index sd \<and> sd_index sd < nblocks f \<and> 0 \<le> block0 f + sd_index sd \<and>
        (\<forall>i<length img. i < nat ((block0 f + sd_index sd) * 512) \<or>
                         nat ((block0 f + sd_index sd) * 512) + 512 \<le> i
            \<longrightarrow> img' ! i = img ! i) \<and>
        (\<forall>s c. s + c \<le> sd_index sd \<or> sd_index sd < s \<longrightarrow>
            getBlocks f s c img' = getBlocks f s c img) \<and>
        getBlocks f (sd_index sd) 1 img' =
          Inr (collapsed (sd_words sd) (nat (sd_loc sd)) (sd_size sd)) \<and>
        (0 \<le> sd_size sd \<longrightarrow>
           List f img' = map_option (\<lambda>(fis, err). (without_first ?nm fis, err)) (List f img))"
    using sc nz rng frame gp lst' by auto
  then show ?thesis using l by blast
qed

theorem Remove_is_local_witness:
  "length two_files_after_img = length two_files_img \<and>
   getBlocks fs4 1 1 two_files_after_img = Inr two_files_after_dir \<and>
   getBlocks fs4 2 2 two_files_after_img = getBlocks fs4 2 2 two_files_img \<and>
   List fs4 two_files_after_img = Some ([\<lparr>fi_Name = ''AB'', fi_Date = 0, fi_Size = 1, fi_Offset = 3\<rparr>], None)"
proof -
  note t = Remove_is_local[OF two_files_removed[of "\<lambda>s. s"]]
  from t have l: "length two_files_after_img = length two_files_img" by blast
  from t obtain sd img0 where
    p: "scan (Probe_cb (ToUpper (\<lambda>s. s) ''name.go'')) fs4 (two_files_img, None) = Some (None, (img0, Some sd))"
    and fr: "\<forall>s c. s + c \<le> sd_index sd \<or> sd_index sd < s \<longrightarrow>
            getBlocks fs4 s c two_files_after_img = getBlocks fs4 s c two_files_img"
    and rb: "getBlocks fs4 (sd_index sd) 1 two_files_after_img =
          Inr (collapsed (sd_words sd) (nat (sd_loc sd)) (sd_size sd))"
    and ls: "0 \<le> sd_size sd \<longrightarrow>
           List fs4 two_files_after_img =
             map_option (\<lambda>(fis, err). (without_first (ToUpper (\<lambda>s. s) ''name.go'') fis, err))
               (List fs4 two_files_img)"
    by blast
  from p two_files_probe_hit have sd: "sd = \<lparr>sd_index = 1, sd_loc = 5, sd_block0 = 2, sd_size = 1,
       sd_words = two_files_dir,
       sd_file = Some \<lparr>fe_name = [897, 837, 0, 463], fe_date = 0, fe_len = 4095\<rparr>\<rparr>"
    by (simp add: upper_names)
  from rb sd have r: "getBlocks fs4 1 1 two_files_after_img = Inr two_files_after_dir"
    by (simp add: two_files_collapsed)
  from fr sd have f: "getBlocks fs4 2 2 two_files_after_img = getBlocks fs4 2 2 two_files_img"
    by simp
  from ls sd two_files_list
  have "List fs4 two_files_after_img =
      Some (without_first (ToUpper (\<lambda>s. s) ''name.go'')
        [\<lparr>fi_Name = ''NAME.GO'', fi_Date = 0, fi_Size = 1, fi_Offset = 2\<rparr>,
         \<lparr>fi_Name = ''AB'', fi_Date = 0, fi_Size = 1, fi_Offset = 3\<rparr>], None)"
    by simp
  with l r f show ?thesis by (simp add: upper_names)
qed

end
